theory Spec2Isabelle
  imports Complex_Main "HOL-Library.Word"
begin

section \<open>Data model\<close>

text \<open>
  A JavaScript string is a sequence of UTF-16 code units; \<open>length\<close> of the list is the
  string's \<^verbatim>\<open>.length\<close>.  A JavaScript number is modelled as a real: rounding,
  overflow, underflow and \<^verbatim>\<open>NaN\<close> of IEEE doubles are outside the model.
\<close>

type_synonym jsstring = "16 word list"

text \<open>A string literal of the source, as code units.\<close>

definition js :: "string \<Rightarrow> jsstring" where
  "js s = map (\<lambda>c. of_nat (of_char c)) s"

lemma js_simps [simp]: "js [] = []" "js (c # s) = of_nat (of_char c) # js s"
  by (simp_all add: js_def)

text \<open>
  \<^verbatim>\<open>interface Chunk { id; pageName; href; fullContent }\<close> (parser.ts) and
  \<^verbatim>\<open>interface EmbeddedChunk extends Chunk { embedding: number[] }\<close> (embedder.ts).
  \<^verbatim>\<open>SearchChunk\<close> (search.ts) declares the same five fields; TypeScript types are
  structural, so it is the same record.  The field \<^verbatim>\<open>id\<close> is named \<open>id_field\<close>.
\<close>

record Chunk =
  id_field :: jsstring
  pageName :: jsstring
  href :: jsstring
  fullContent :: jsstring

record EmbeddedChunk = Chunk +
  embedding :: "real list"

type_synonym SearchChunk = EmbeddedChunk

record SearchResult =
  chunk :: SearchChunk
  score :: real

text \<open>The exceptions the modelled code throws, one constructor for each throw site.\<close>

datatype error =
    CacheNotFound
  | JsonSyntaxError
  | TypeError
  | VectorsLengthMismatch
  | SearchEngineNotLoaded
  | EmbeddingFailed
  | InvalidCacheFormat
  | InvalidChunkStructure
  | InvalidEmbeddingFormat

section \<open>The search engine (search.ts)\<close>

text \<open>
  The fields of \<^verbatim>\<open>class SearchEngine\<close>.  The type of \<open>chunks\<close> is a parameter: the
  class declares \<^verbatim>\<open>SearchChunk[]\<close>, but \<^verbatim>\<open>loadCache\<close> stores the parsed JSON under
  an unchecked cast, see below.
\<close>

record 'c SearchEngine =
  chunks :: 'c
  isLoaded :: bool

definition new_SearchEngine :: "SearchChunk list SearchEngine" where
  "new_SearchEngine = \<lparr>chunks = [], isLoaded = False\<rparr>"

text \<open>
  \<^verbatim>\<open>cosineSimilarity(a, b)\<close>: the length check, then one loop accumulating the dot
  product and the two squared norms, then the zero test and the quotient.
\<close>

definition cosineSimilarity :: "real list \<Rightarrow> real list \<Rightarrow> error + real" where
  "cosineSimilarity a b =
     (if length a \<noteq> length b then Inl VectorsLengthMismatch
      else
        (case fold (\<lambda>i (dotProduct, normA, normB).
                      (dotProduct + a ! i * b ! i, normA + a ! i * a ! i, normB + b ! i * b ! i))
                   [0..<length a] (0, 0, 0) of
           (dotProduct, normA, normB) \<Rightarrow>
             if normA = 0 \<or> normB = 0 then Inr 0
             else Inr (dotProduct / (sqrt normA * sqrt normB))))"

text \<open>
  The \<^verbatim>\<open>for (const chunk of this.chunks)\<close> loop of \<^verbatim>\<open>search\<close>: the first
  exception of \<open>cosineSimilarity\<close> leaves the loop, a score of at least \<open>minScore\<close> is
  pushed to the end of \<open>results\<close>.
\<close>

fun search_loop ::
  "real list \<Rightarrow> real \<Rightarrow> SearchChunk list \<Rightarrow> SearchResult list \<Rightarrow> error + SearchResult list"
where
  "search_loop queryEmbedding minScore [] results = Inr results"
| "search_loop queryEmbedding minScore (c # cs) results =
     (case cosineSimilarity queryEmbedding (embedding c) of
        Inl e \<Rightarrow> Inl e
      | Inr s \<Rightarrow>
          search_loop queryEmbedding minScore cs
            (if s \<ge> minScore then results @ [\<lparr>chunk = c, score = s\<rparr>] else results))"

text \<open>
  \<^verbatim>\<open>results.slice(0, topK)\<close>: a negative end counts from the end of the array, an end
  beyond the length is the length.  (\<open>topK\<close> is an integer here; \<^verbatim>\<open>slice\<close> truncates a
  fractional argument towards zero first.)
\<close>

definition slice0 :: "'a list \<Rightarrow> int \<Rightarrow> 'a list" where
  "slice0 xs e = (if e < 0 then take (nat (int (length xs) + e)) xs else take (nat e) xs)"

text \<open>
  \<^verbatim>\<open>results.sort((a, b) => b.score - a.score)\<close>: \<^verbatim>\<open>Array.prototype.sort\<close> is a stable
  sort, here by descending score, which is the stable insertion sort on the key
  \<open>- score\<close>.
\<close>

definition sort_results :: "SearchResult list \<Rightarrow> SearchResult list" where
  "sort_results results = sort_key (\<lambda>r. - score r) results"

text \<open>
  \<^verbatim>\<open>search(queryEmbedding, topK, minScore)\<close> returns its result (or the exception) and
  the engine; it assigns to no field.
\<close>

definition search ::
  "SearchChunk list SearchEngine \<Rightarrow> real list \<Rightarrow> int \<Rightarrow> real
     \<Rightarrow> (error + SearchResult list) \<times> SearchChunk list SearchEngine"
where
  "search this queryEmbedding topK minScore =
     (if \<not> isLoaded this then (Inl SearchEngineNotLoaded, this)
      else
        (case search_loop queryEmbedding minScore (chunks this) [] of
           Inl e \<Rightarrow> (Inl e, this)
         | Inr results \<Rightarrow> (Inr (slice0 (sort_results results) topK), this)))"

text \<open>
  A loaded engine for the examples: three chunks with the embeddings \<open>[3, 4]\<close>,
  \<open>[1, 0]\<close> and \<open>[4, 3]\<close>, whose similarities to the query \<open>[1, 0]\<close> are
  \<open>3/5\<close>, \<open>1\<close> and \<open>4/5\<close>.
\<close>

definition chunk_a :: SearchChunk where
  "chunk_a = \<lparr>id_field = js ''a'', pageName = js ''P'', href = js ''h'', fullContent = js ''x'',
              embedding = [3, 4]\<rparr>"

definition chunk_b :: SearchChunk where
  "chunk_b = \<lparr>id_field = js ''b'', pageName = js ''P'', href = js ''h'', fullContent = js ''y'',
              embedding = [1, 0]\<rparr>"

definition chunk_c :: SearchChunk where
  "chunk_c = \<lparr>id_field = js ''c'', pageName = js ''P'', href = js ''h'', fullContent = js ''z'',
              embedding = [4, 3]\<rparr>"

definition loaded_engine :: "SearchChunk list SearchEngine" where
  "loaded_engine = \<lparr>chunks = [chunk_a, chunk_b, chunk_c], isLoaded = True\<rparr>"

section \<open>Token estimation and chunk splitting (embedder.ts)\<close>

definition MAX_BATCH_SIZE :: nat where
  "MAX_BATCH_SIZE = 50"

definition MAX_TOKENS_PER_BATCH :: nat where
  "MAX_TOKENS_PER_BATCH = 6000"

definition MAX_TOKENS_PER_INPUT :: nat where
  "MAX_TOKENS_PER_INPUT = 7000"

text \<open>\<^verbatim>\<open>estimateTokens(text) = Math.ceil(text.length / 4)\<close>.\<close>

definition estimateTokens :: "jsstring \<Rightarrow> nat" where
  "estimateTokens text = nat \<lceil>real (length text) / 4\<rceil>"

text \<open>
  The code units that \<^verbatim>\<open>String.prototype.trim\<close> strips and that \<^verbatim>\<open>\s\<close> matches in a
  regular expression: the white space and line terminator code points of ECMAScript.
\<close>

definition is_ws :: "16 word \<Rightarrow> bool" where
  "is_ws c =
     (c \<in> {9, 10, 11, 12, 13, 32, 160, 5760, 8232, 8233, 8239, 8287, 12288, 65279}
      \<or> (8192 \<le> c \<and> c \<le> 8202))"

definition trim :: "jsstring \<Rightarrow> jsstring" where
  "trim s = rev (dropWhile is_ws (rev (dropWhile is_ws s)))"

text \<open>
  \<^verbatim>\<open>s.split('\n\n')\<close>: the pieces between the occurrences of two line feeds, found from
  left to right without overlap; \<open>cur\<close> is the piece read so far.
\<close>

fun split_from :: "jsstring \<Rightarrow> jsstring \<Rightarrow> jsstring list" where
  "split_from cur (a # b # cs) =
     (if a = 10 \<and> b = 10 then cur # split_from [] cs else split_from (cur @ [a]) (b # cs))"
| "split_from cur cs = [cur @ cs]"

definition split_paragraphs :: "jsstring \<Rightarrow> jsstring list" where
  "split_paragraphs s = split_from [] s"

text \<open>
  One \<^verbatim>\<open>sentenceRegex.exec(text)\<close> of \<^verbatim>\<open>/(.*?[.!?](?:\s|$))/gs\<close> on the text from
  \<^verbatim>\<open>lastIndex\<close> on: the shortest prefix that ends in a full stop, exclamation or question
  mark followed by a white space character (which the match includes) or by the end of
  the text.  The result is the match and the text after it, \<open>None\<close> when \<^verbatim>\<open>exec\<close>
  returns \<^verbatim>\<open>null\<close>.
\<close>

definition is_terminator :: "16 word \<Rightarrow> bool" where
  "is_terminator c = (c = 46 \<or> c = 33 \<or> c = 63)"

fun sentence_exec :: "jsstring \<Rightarrow> (jsstring \<times> jsstring) option" where
  "sentence_exec [] = None"
| "sentence_exec [c] = (if is_terminator c then Some ([c], []) else None)"
| "sentence_exec (c # d # cs) =
     (if is_terminator c \<and> is_ws d then Some ([c, d], cs)
      else (case sentence_exec (d # cs) of
              None \<Rightarrow> None
            | Some (m, rest) \<Rightarrow> Some (c # m, rest)))"

lemma sentence_exec_shorter:
  "sentence_exec s = Some (m, rest) \<Longrightarrow> length rest < length s"
  by (induction s arbitrary: m rest rule: sentence_exec.induct)
     (auto split: if_splits option.splits)

text \<open>
  The \<^verbatim>\<open>while ((match = sentenceRegex.exec(text)) !== null)\<close> loop of
  \<^verbatim>\<open>splitBySentences\<close> with the push of the unmatched tail after it.
\<close>

function sentence_parts :: "jsstring \<Rightarrow> jsstring list" where
  "sentence_parts text =
     (case sentence_exec text of
        None \<Rightarrow> (if text \<noteq> [] then [text] else [])
      | Some (m, rest) \<Rightarrow> m # sentence_parts rest)"
  by pat_completeness auto
termination
  by (relation "measure length") (auto dest: sentence_exec_shorter)

definition splitBySentences :: "jsstring \<Rightarrow> jsstring list" where
  "splitBySentences text = filter (\<lambda>p. p \<noteq> []) (map trim (sentence_parts text))"

text \<open>
  \<^verbatim>\<open>hardSliceByCharacters\<close>.  \<open>charLimit\<close> is
  \<^verbatim>\<open>Math.floor(Math.max(4 * maxTokens * 0.9, 1))\<close>; the loop steps \<open>i\<close> by it.  It is
  at least 1 at the only call of the loop; the loop of the model stops on a zero step.
\<close>

definition charLimit :: "nat \<Rightarrow> nat" where
  "charLimit maxTokens = nat \<lfloor>max (4 * real maxTokens * (9 / 10)) 1\<rfloor>"

function slices_from :: "nat \<Rightarrow> jsstring \<Rightarrow> nat \<Rightarrow> jsstring list" where
  "slices_from step text i =
     (if i < length text \<and> 0 < step
      then take step (drop i text) # slices_from step text (i + step)
      else [])"
  by pat_completeness auto
termination
  by (relation "measure (\<lambda>(step, text, i). length text - i)") auto

definition hardSliceByCharacters :: "jsstring \<Rightarrow> nat \<Rightarrow> jsstring list" where
  "hardSliceByCharacters text maxTokens = slices_from (charLimit maxTokens) text 0"

text \<open>The decimal digits of \<open>partIndex\<close> in the template string of a child's id.\<close>

fun decimal :: "nat \<Rightarrow> jsstring" where
  "decimal n = (if n < 10 then [48 + of_nat n] else decimal (n div 10) @ [48 + of_nat (n mod 10)])"

definition part_id :: "jsstring \<Rightarrow> nat \<Rightarrow> jsstring" where
  "part_id cid n = cid @ js ''_part_'' @ decimal n"

text \<open>
  The variables of \<^verbatim>\<open>splitLargeChunk\<close> that its loops assign: \<open>subChunks\<close>, \<open>buffer\<close>
  and \<open>partIndex\<close>.  \<open>push_part\<close> is the
  \<^verbatim>\<open>subChunks.push({...chunk, id: `${chunk.id}_part_${partIndex++}`, fullContent: c})\<close>
  that occurs five times; the spread keeps every other field of the parent.
\<close>

record 'a splitter =
  subChunks :: "'a Chunk_scheme list"
  buffer :: jsstring
  partIndex :: nat

definition push_part :: "'a Chunk_scheme \<Rightarrow> jsstring \<Rightarrow> 'a splitter \<Rightarrow> 'a splitter" where
  "push_part parent content st =
     st\<lparr>subChunks := subChunks st
            @ [parent\<lparr>id_field := part_id (id_field parent) (partIndex st), fullContent := content\<rparr>],
        partIndex := Suc (partIndex st)\<rparr>"

definition pushBufferIfAny :: "'a Chunk_scheme \<Rightarrow> 'a splitter \<Rightarrow> 'a splitter" where
  "pushBufferIfAny parent st =
     (if length (trim (buffer st)) = 0 then st
      else (push_part parent (buffer st) st)\<lparr>buffer := []\<rparr>)"

text \<open>
  The \<^verbatim>\<open>for (const sentence of sentences)\<close> loop with the push of the last
  \<open>sentenceBuffer\<close> after it.
\<close>

fun sentence_loop ::
  "'a Chunk_scheme \<Rightarrow> nat \<Rightarrow> jsstring list \<Rightarrow> jsstring \<Rightarrow> 'a splitter \<Rightarrow> 'a splitter"
where
  "sentence_loop parent maxTokens [] sentenceBuffer st =
     (if sentenceBuffer \<noteq> [] then push_part parent sentenceBuffer st else st)"
| "sentence_loop parent maxTokens (sentence # rest) sentenceBuffer st =
     (let tentative = sentenceBuffer @ (if sentenceBuffer \<noteq> [] then [32] else []) @ sentence
      in if estimateTokens tentative > maxTokens then
           (let st1 = (if sentenceBuffer \<noteq> [] then push_part parent sentenceBuffer st else st)
            in if estimateTokens sentence > maxTokens
               then sentence_loop parent maxTokens rest []
                      (fold (push_part parent) (hardSliceByCharacters sentence maxTokens) st1)
               else sentence_loop parent maxTokens rest sentence st1)
         else sentence_loop parent maxTokens rest tentative st)"

text \<open>The \<^verbatim>\<open>for (const rawParagraph of paragraphs)\<close> loop.\<close>

fun paragraph_loop ::
  "'a Chunk_scheme \<Rightarrow> nat \<Rightarrow> jsstring list \<Rightarrow> 'a splitter \<Rightarrow> 'a splitter"
where
  "paragraph_loop parent maxTokens [] st = st"
| "paragraph_loop parent maxTokens (rawParagraph # rest) st =
     (let paragraph = trim rawParagraph;
          paragraphTokens = estimateTokens paragraph
      in if paragraphTokens > maxTokens then
           paragraph_loop parent maxTokens rest
             (sentence_loop parent maxTokens (splitBySentences paragraph) []
                (pushBufferIfAny parent st))
         else
           (let tentative = buffer st @ (if buffer st \<noteq> [] then [10, 10] else []) @ paragraph
            in if estimateTokens tentative > maxTokens
               then paragraph_loop parent maxTokens rest
                      ((pushBufferIfAny parent st)\<lparr>buffer := paragraph\<rparr>)
               else paragraph_loop parent maxTokens rest (st\<lparr>buffer := tentative\<rparr>)))"

definition splitLargeChunk :: "'a Chunk_scheme \<Rightarrow> nat \<Rightarrow> 'a Chunk_scheme list" where
  "splitLargeChunk parent maxTokens =
     (if estimateTokens (fullContent parent) \<le> maxTokens then [parent]
      else
        (let paragraphs = filter (\<lambda>p. length (trim p) > 0) (split_paragraphs (fullContent parent));
             st = pushBufferIfAny parent
                    (paragraph_loop parent maxTokens paragraphs
                       \<lparr>subChunks = [], buffer = [], partIndex = 0\<rparr>)
         in if length (subChunks st) > 0 then subChunks st else [parent]))"

text \<open>
  The content of a chunk with its white space removed: what a split may change is white
  space only (the paragraph separators, the trimmed ends, the joining space).
\<close>

definition squash :: "jsstring \<Rightarrow> jsstring" where
  "squash s = filter (\<lambda>c. \<not> is_ws c) s"

text \<open>
  White space normalized at boundaries.  \<open>normalizes p c\<close> says that the text \<open>c\<close>
  is the text \<open>p\<close> in which some runs of white space, none of them empty, are each
  replaced by a separator of the splitter: the two line feeds that join paragraphs or
  the space that joins sentences.  Everywhere else the two texts are the same.
\<close>

inductive normalizes :: "jsstring \<Rightarrow> jsstring \<Rightarrow> bool" where
  same: "normalizes u u"
| join: "normalizes p c \<Longrightarrow> w \<noteq> [] \<Longrightarrow> \<forall>x \<in> set w. is_ws x \<Longrightarrow>
           sep = [10, 10] \<or> sep = [32] \<Longrightarrow>
           normalizes (p @ w @ u) (c @ sep @ u)"

text \<open>
  Conservation up to white space at the boundaries: \<open>tiles cs s\<close> says that the text
  \<open>s\<close> is cut, from left to right, into one piece for each of the contents \<open>cs\<close>, in
  order, with nothing but white space before the first piece, between two pieces and
  after the last, and that each content is its piece with white space normalized at
  boundaries.  Two pieces may touch (the slices of a long sentence).
\<close>

primrec tiles :: "jsstring list \<Rightarrow> jsstring \<Rightarrow> bool" where
  "tiles [] s = (\<forall>c \<in> set s. is_ws c)"
| "tiles (c # cs) s =
     (\<exists>g p rest. s = g @ p @ rest \<and> (\<forall>x \<in> set g. is_ws x)
                  \<and> normalizes p c \<and> tiles cs rest)"

text \<open>
  Three chunks for the examples: the content of the first is five spaces, the content
  of the second is \<^verbatim>\<open>Hi. Yo! abcdefghij\<close>, the content of the third is the paragraphs
  \<^verbatim>\<open>aa\<close>, \<^verbatim>\<open>bb\<close> and \<^verbatim>\<open>cccccccc\<close>, with two line feeds after the first and three
  after the second.
\<close>

definition blank_chunk :: Chunk where
  "blank_chunk =
     \<lparr>id_field = js ''p'', pageName = js ''P'', href = js ''h'', fullContent = [32, 32, 32, 32, 32]\<rparr>"



section \<open>Embedding batches (embedder.ts)\<close>

text \<open>
  \<^verbatim>\<open>embedBatch\<close>, the call of the embedding provider with its retries, is a parameter of
  the model: for the number of the batch and its texts it gives the vectors that the
  provider returned, or the error thrown after the last attempt.
\<close>

type_synonym embedder = "nat \<Rightarrow> jsstring list \<Rightarrow> error + real list list"

text \<open>
  An element of \<^verbatim>\<open>embeddedChunks\<close> is \<^verbatim>\<open>{...currentBatch[j], embedding: embeddings[j]}\<close>;
  \<^verbatim>\<open>embeddings[j]\<close> is \<^verbatim>\<open>undefined\<close> (\<open>None\<close>) when the provider returned fewer
  vectors than texts.
\<close>

type_synonym 'a embedded = "'a Chunk_scheme \<times> real list option"

text \<open>
  The variables of the batching loop of \<^verbatim>\<open>generateEmbeddings\<close>.  \<open>handed\<close> is not a
  variable of the source: it records the batches passed to \<^verbatim>\<open>embedBatch\<close>, in order.
\<close>

record 'a batching =
  currentBatch :: "'a Chunk_scheme list"
  currentBatchTokens :: nat
  batchNumber :: nat
  embeddedChunks :: "'a embedded list"
  handed :: "'a Chunk_scheme list list"

text \<open>
  The \<^verbatim>\<open>try\<close> block that occurs in the loop and after it: the texts of \<open>currentBatch\<close>
  go to \<^verbatim>\<open>embedBatch\<close>, the vectors are attached by index; an error is thrown on.
\<close>

definition process_batch :: "embedder \<Rightarrow> 'a batching \<Rightarrow> 'a batching \<times> error option" where
  "process_batch embedBatch st =
     (case embedBatch (batchNumber st) (map fullContent (currentBatch st)) of
        Inl e \<Rightarrow> (st\<lparr>handed := handed st @ [currentBatch st]\<rparr>, Some e)
      | Inr embeddings \<Rightarrow>
          (st\<lparr>handed := handed st @ [currentBatch st],
              embeddedChunks := embeddedChunks st
                @ map (\<lambda>j. (currentBatch st ! j,
                             if j < length embeddings then Some (embeddings ! j) else None))
                      [0..<length (currentBatch st)]\<rparr>,
           None))"

text \<open>
  The first \<^verbatim>\<open>if\<close> of the loop body: when the batch is full, or is not empty and the
  chunk would take it over the token budget, it is processed and reset.
\<close>

definition flush_if_needed ::
  "embedder \<Rightarrow> nat \<Rightarrow> 'a batching \<Rightarrow> 'a batching \<times> error option"
where
  "flush_if_needed embedBatch chunkTokens st =
     (if length (currentBatch st) \<ge> MAX_BATCH_SIZE
         \<or> (length (currentBatch st) > 0
             \<and> currentBatchTokens st + chunkTokens > MAX_TOKENS_PER_BATCH)
      then (case process_batch embedBatch st of
              (st1, Some e) \<Rightarrow> (st1, Some e)
            | (st1, None) \<Rightarrow>
                (st1\<lparr>currentBatch := [], currentBatchTokens := 0,
                     batchNumber := batchNumber st1 + 1\<rparr>, None))
      else (st, None))"

text \<open>
  The loop \<^verbatim>\<open>for (let i = 0; i < normalizedChunks.length; i++)\<close>, on the chunks from
  index \<open>i\<close> on (\<open>pending\<close>): the loop reads no earlier element, and the
  \<^verbatim>\<open>splice(i, 1, ...reSplit); i -= 1\<close> of an oversized chunk puts its pieces in front.
  After the loop comes the final batch.  The result is the last state and the error
  thrown, if any; the loop need not end, and then there is no result.
\<close>

partial_function (option) batch_loop ::
  "embedder \<Rightarrow> 'a Chunk_scheme list \<Rightarrow> 'a batching \<Rightarrow> ('a batching \<times> error option) option"
where
  "batch_loop embedBatch pending st =
     (case pending of
        [] \<Rightarrow>
          Some (if length (currentBatch st) > 0 then process_batch embedBatch st else (st, None))
      | c # rest \<Rightarrow>
          (case flush_if_needed embedBatch (estimateTokens (fullContent c)) st of
             (st1, Some e) \<Rightarrow> Some (st1, Some e)
           | (st1, None) \<Rightarrow>
               if estimateTokens (fullContent c) > MAX_TOKENS_PER_INPUT
               then batch_loop embedBatch
                      (splitLargeChunk c (min 1000 (MAX_TOKENS_PER_INPUT - 200)) @ rest) st1
               else batch_loop embedBatch rest
                      (st1\<lparr>currentBatch := currentBatch st1 @ [c],
                           currentBatchTokens :=
                             currentBatchTokens st1 + estimateTokens (fullContent c)\<rparr>)))"

text \<open>The two passes before the loop: \<open>processedChunks\<close> and \<open>normalizedChunks\<close>.\<close>

definition processedChunks :: "'a Chunk_scheme list \<Rightarrow> 'a Chunk_scheme list" where
  "processedChunks input = concat (map (\<lambda>ch. splitLargeChunk ch 1000) input)"

definition normalizedChunks :: "'a Chunk_scheme list \<Rightarrow> 'a Chunk_scheme list" where
  "normalizedChunks input =
     concat (map (\<lambda>ch.
                    if estimateTokens (fullContent ch) > MAX_TOKENS_PER_INPUT
                    then splitLargeChunk ch (min 1000 (MAX_TOKENS_PER_INPUT - 200))
                    else [ch])
                 (processedChunks input))"

definition generateEmbeddings ::
  "embedder \<Rightarrow> 'a Chunk_scheme list \<Rightarrow> ('a batching \<times> error option) option"
where
  "generateEmbeddings embedBatch input =
     batch_loop embedBatch (normalizedChunks input)
       \<lparr>currentBatch = [], currentBatchTokens = 0, batchNumber = 1,
        embeddedChunks = [], handed = []\<rparr>"

text \<open>The estimated token sum of a batch.\<close>

definition batch_tokens :: "'a Chunk_scheme list \<Rightarrow> nat" where
  "batch_tokens b = sum_list (map (\<lambda>c. estimateTokens (fullContent c)) b)"

text \<open>
  For the examples: a chunk of one character (one token), a chunk of 24004 spaces (6001
  tokens), and an \<^verbatim>\<open>embedBatch\<close> that returns the vector \<open>[1]\<close> for every text.
\<close>

definition unit_chunk :: Chunk where
  "unit_chunk = \<lparr>id_field = js ''u'', pageName = js ''P'', href = js ''h'', fullContent = js ''a''\<rparr>"

definition big_blank_chunk :: Chunk where
  "big_blank_chunk =
     \<lparr>id_field = js ''w'', pageName = js ''P'', href = js ''h'', fullContent = replicate 24004 32\<rparr>"

definition constant_embedder :: embedder where
  "constant_embedder n texts = Inr (map (\<lambda>t. [1]) texts)"

section \<open>The cache file (cache.ts, and \<open>loadCache\<close> of search.ts)\<close>

text \<open>
  The value that \<^verbatim>\<open>JSON.parse\<close> returns.  An object is the list of its properties, in
  order, each name once.
\<close>

datatype jsval =
    JNull
  | JBool bool
  | JNum real
  | JStr jsstring
  | JArr "jsval list"
  | JObj "(jsstring \<times> jsval) list"

text \<open>
  The file at the cache path, as the readers see it: absent, or with a content that
  \<^verbatim>\<open>JSON.parse\<close> rejects, or with the content of a JSON value.
\<close>

datatype cache_file = NoFile | NotJson | Json jsval

text \<open>
  Reading a property of a value that is not \<^verbatim>\<open>null\<close>, for the names the code reads
  (\<^verbatim>\<open>chunks\<close>, \<^verbatim>\<open>id\<close>, \<^verbatim>\<open>pageName\<close>, \<^verbatim>\<open>href\<close>, \<^verbatim>\<open>fullContent\<close>,
  \<^verbatim>\<open>embedding\<close>): the property of an object, \<^verbatim>\<open>undefined\<close> (\<open>None\<close>) where it has
  none and on every other kind of value.  Reading a property of \<^verbatim>\<open>null\<close> throws a
  \<^verbatim>\<open>TypeError\<close>, which the callers below test first.
\<close>

fun property :: "jsval \<Rightarrow> jsstring \<Rightarrow> jsval option" where
  "property (JObj ps) k = map_of ps k"
| "property v k = None"

text \<open>The values that \<^verbatim>\<open>!\<close> does not negate to \<^verbatim>\<open>true\<close>, and \<^verbatim>\<open>Array.isArray\<close>.\<close>

fun truthy :: "jsval option \<Rightarrow> bool" where
  "truthy None = False"
| "truthy (Some JNull) = False"
| "truthy (Some (JBool b)) = b"
| "truthy (Some (JNum x)) = (x \<noteq> 0)"
| "truthy (Some (JStr s)) = (s \<noteq> [])"
| "truthy (Some (JArr xs)) = True"
| "truthy (Some (JObj ps)) = True"

fun isArray :: "jsval option \<Rightarrow> bool" where
  "isArray (Some (JArr xs)) = True"
| "isArray v = False"

text \<open>
  The numbers of an embedding as \<^verbatim>\<open>saveCache\<close> may receive them:
  \<^verbatim>\<open>JSON.stringify\<close> tells a finite number from \<^verbatim>\<open>NaN\<close> and from the two
  infinities.  A finite number is a real, as elsewhere; \<^verbatim>\<open>-0\<close> and \<^verbatim>\<open>0\<close> are one
  real, and floating-point equality does not tell them apart either.
\<close>

datatype number = Finite real | NaN | PosInfinity | NegInfinity

fun isFinite :: "number \<Rightarrow> bool" where
  "isFinite (Finite x) = True"
| "isFinite v = False"

text \<open>
  A value in memory, as far as \<^verbatim>\<open>JSON.stringify\<close> reads it, and an
  \<^verbatim>\<open>EmbeddedChunk\<close> as \<^verbatim>\<open>saveCache\<close> receives it: the fields of a \<open>Chunk\<close> and
  the numbers of the embedding (the record \<open>EmbeddedChunk\<close> above has reals, for the
  arithmetic of the search).  \<open>chunk_object\<close> is the object in memory: the five
  properties of the interface, in the order in which the parser and
  \<^verbatim>\<open>generateEmbeddings\<close> build them.
\<close>

datatype memval =
    MNull
  | MBool bool
  | MNum number
  | MStr jsstring
  | MArr "memval list"
  | MObj "(jsstring \<times> memval) list"

record JsEmbeddedChunk = Chunk +
  embedding_js :: "number list"

definition chunk_object :: "JsEmbeddedChunk \<Rightarrow> memval" where
  "chunk_object c =
     MObj [(js ''id'', MStr (id_field c)),
           (js ''pageName'', MStr (pageName c)),
           (js ''href'', MStr (href c)),
           (js ''fullContent'', MStr (fullContent c)),
           (js ''embedding'', MArr (map MNum (embedding_js c)))]"

text \<open>
  \<^verbatim>\<open>JSON.stringify(value, null, 2)\<close> is a function of the platform.  The model has it
  by the JSON value that the text it writes denotes, which is the value that
  \<^verbatim>\<open>JSON.parse\<close> returns for that text: a string, a boolean and \<^verbatim>\<open>null\<close> as they
  are, a finite number as it is, \<^verbatim>\<open>NaN\<close> and the infinities as \<^verbatim>\<open>null\<close>, an array
  and an object element by element.  The model does not go below the JSON value: the
  text, its indentation, the escapes of a string and the decimal notation of a finite
  number (which ECMAScript chooses so that reading it gives the number back) are not
  represented.  \<open>in_memory\<close> is the value in memory that \<^verbatim>\<open>JSON.parse\<close> builds for a
  JSON value.
\<close>

fun number_json :: "number \<Rightarrow> jsval" where
  "number_json (Finite x) = JNum x"
| "number_json v = JNull"

primrec stringify :: "memval \<Rightarrow> jsval" where
  "stringify MNull = JNull"
| "stringify (MBool b) = JBool b"
| "stringify (MNum x) = number_json x"
| "stringify (MStr s) = JStr s"
| "stringify (MArr vs) = JArr (map stringify vs)"
| "stringify (MObj ps) = JObj (map (map_prod id stringify) ps)"

primrec in_memory :: "jsval \<Rightarrow> memval" where
  "in_memory JNull = MNull"
| "in_memory (JBool b) = MBool b"
| "in_memory (JNum x) = MNum (Finite x)"
| "in_memory (JStr s) = MStr s"
| "in_memory (JArr vs) = MArr (map in_memory vs)"
| "in_memory (JObj ps) = MObj (map (map_prod id in_memory) ps)"

text \<open>
  The files that \<^verbatim>\<open>saveCache\<close> and the readers touch: the content at each path, if
  there is a file.  A content is the text of a JSON value, represented by that value, or
  a text that \<^verbatim>\<open>JSON.parse\<close> rejects.  \<open>readCache\<close> is what a reader finds at the
  cache path with \<^verbatim>\<open>existsSync\<close>, \<^verbatim>\<open>readFileSync\<close> and \<^verbatim>\<open>JSON.parse\<close>.
\<close>

datatype content = JsonText jsval | OtherText

type_synonym files = "jsstring \<Rightarrow> content option"

definition readCache :: "files \<Rightarrow> jsstring \<Rightarrow> cache_file" where
  "readCache fs cachePath =
     (case fs cachePath of
        None \<Rightarrow> NoFile
      | Some OtherText \<Rightarrow> NotJson
      | Some (JsonText v) \<Rightarrow> Json v)"

text \<open>
  \<^verbatim>\<open>saveCache(embeddedChunks)\<close>, for the cache path of the environment and the time of
  the call as \<open>now\<close>: the object \<^verbatim>\<open>cacheData\<close>, the \<^verbatim>\<open>writeFileSync\<close> of its
  \<^verbatim>\<open>JSON.stringify\<close> to the temporary path and the \<^verbatim>\<open>renameSync\<close> to the cache
  path.  Creating the directory, writing and renaming are taken to succeed (the function
  throws otherwise).
\<close>

definition saveCache :: "jsstring \<Rightarrow> jsstring \<Rightarrow> JsEmbeddedChunk list \<Rightarrow> files \<Rightarrow> files" where
  "saveCache cachePath now embedded fs =
     (let cacheData = MObj [(js ''timestamp'', MStr now),
                            (js ''version'', MStr (js ''1.0'')),
                            (js ''chunks'', MArr (map chunk_object embedded)),
                            (js ''totalChunks'', MNum (Finite (real (length embedded))))];
          tempPath = cachePath @ js ''.tmp'';
          fs1 = fs(tempPath \<mapsto> JsonText (stringify cacheData))
      in (fs1(cachePath := fs1 tempPath))(tempPath := None))"

text \<open>
  \<^verbatim>\<open>loadCache()\<close> of cache.ts.  The body of its \<^verbatim>\<open>try\<close> block first, with the
  exception it throws; the \<^verbatim>\<open>catch\<close> turns every exception into \<^verbatim>\<open>null\<close>
  (\<open>None\<close>).  The result is the array of the file as it is: the cast to
  \<^verbatim>\<open>EmbeddedChunk[]\<close> checks nothing.
\<close>

definition check_chunk :: "jsval \<Rightarrow> error + unit" where
  "check_chunk c =
     (if c = JNull then Inl TypeError
      else if \<not> truthy (property c (js ''id'')) \<or> \<not> truthy (property c (js ''pageName''))
              \<or> \<not> truthy (property c (js ''href'')) \<or> \<not> truthy (property c (js ''fullContent''))
              \<or> \<not> truthy (property c (js ''embedding''))
           then Inl InvalidChunkStructure
      else if \<not> isArray (property c (js ''embedding'')) then Inl InvalidEmbeddingFormat
      else Inr ())"

fun check_chunks :: "jsval list \<Rightarrow> error + unit" where
  "check_chunks [] = Inr ()"
| "check_chunks (c # cs) = (case check_chunk c of Inl e \<Rightarrow> Inl e | Inr u \<Rightarrow> check_chunks cs)"

definition loadCache_try :: "cache_file \<Rightarrow> error + jsval list option" where
  "loadCache_try file =
     (case file of
        NoFile \<Rightarrow> Inr None
      | NotJson \<Rightarrow> Inl JsonSyntaxError
      | Json cacheData \<Rightarrow>
          if cacheData = JNull then Inl TypeError
          else if \<not> truthy (property cacheData (js ''chunks''))
                  \<or> \<not> isArray (property cacheData (js ''chunks''))
               then Inl InvalidCacheFormat
          else (case property cacheData (js ''chunks'') of
                  Some (JArr cs) \<Rightarrow>
                    (case check_chunks cs of Inl e \<Rightarrow> Inl e | Inr u \<Rightarrow> Inr (Some cs))
                | other \<Rightarrow> Inl InvalidCacheFormat))"

definition loadCache :: "cache_file \<Rightarrow> jsval list option" where
  "loadCache file = (case loadCache_try file of Inl e \<Rightarrow> None | Inr r \<Rightarrow> r)"

text \<open>
  \<^verbatim>\<open>SearchEngine.loadCache()\<close>: the file must exist and parse; then
  \<^verbatim>\<open>this.chunks = cacheData.chunks\<close>, whatever that value is, and
  \<^verbatim>\<open>this.isLoaded = true\<close>.  An exception leaves the engine as it was.
\<close>

definition SearchEngine_loadCache ::
  "cache_file \<Rightarrow> 'c SearchEngine \<Rightarrow> error + jsval option SearchEngine"
where
  "SearchEngine_loadCache file this =
     (case file of
        NoFile \<Rightarrow> Inl CacheNotFound
      | NotJson \<Rightarrow> Inl JsonSyntaxError
      | Json cacheData \<Rightarrow>
          if cacheData = JNull then Inl TypeError
          else Inr \<lparr>chunks = property cacheData (js ''chunks''), isLoaded = True\<rparr>)"

text \<open>
  For the examples: a cache file with a chunk that has no \<^verbatim>\<open>pageName\<close>; two chunks
  to save; a chunk with an empty \<^verbatim>\<open>id\<close>; a chunk with a \<^verbatim>\<open>NaN\<close> in its
  embedding; a cache path, a time and a directory without files.
\<close>

definition nameless_cache :: cache_file where
  "nameless_cache =
     Json (JObj [(js ''timestamp'', JStr (js ''t'')),
                 (js ''version'', JStr (js ''1.0'')),
                 (js ''chunks'',
                    JArr [JObj [(js ''id'', JStr (js ''a'')),
                                (js ''href'', JStr (js ''h'')),
                                (js ''fullContent'', JStr (js ''x'')),
                                (js ''embedding'', JArr [JNum 1, JNum 0])]])])"

definition saved_a :: JsEmbeddedChunk where
  "saved_a =
     \<lparr>id_field = js ''a'', pageName = js ''P'', href = js ''h'', fullContent = js ''x'',
      embedding_js = [Finite 3, Finite 4]\<rparr>"

definition saved_b :: JsEmbeddedChunk where
  "saved_b =
     \<lparr>id_field = js ''b'', pageName = js ''Q'', href = js ''k'', fullContent = js ''y'',
      embedding_js = [Finite 1, Finite 0]\<rparr>"

definition anonymous_chunk :: JsEmbeddedChunk where
  "anonymous_chunk =
     \<lparr>id_field = [], pageName = js ''P'', href = js ''h'', fullContent = js ''x'',
      embedding_js = [Finite 1, Finite 0]\<rparr>"

definition nan_chunk :: JsEmbeddedChunk where
  "nan_chunk =
     \<lparr>id_field = js ''n'', pageName = js ''P'', href = js ''h'', fullContent = js ''x'',
      embedding_js = [Finite 1, NaN]\<rparr>"

definition cache_path :: jsstring where
  "cache_path = js ''data/embeddings.json''"

definition new_year :: jsstring where
  "new_year = js ''2025-01-01T00:00:00.000Z''"

definition no_files :: files where
  "no_files = (\<lambda>path. None)"

section \<open>Properties of the search engine\<close>

lemma cosineSimilarity_Inr:
  "length a = length b \<Longrightarrow> \<exists>s. cosineSimilarity a b = Inr s"
  by (simp add: cosineSimilarity_def split: prod.splits)

lemma search_loop_mismatch:
  "\<exists>c \<in> set cs. length (embedding c) \<noteq> length q \<Longrightarrow>
     search_loop q m cs acc = Inl VectorsLengthMismatch"
proof (induction cs arbitrary: acc)
  case Nil
  then show ?case by simp
next
  case (Cons c cs)
  show ?case
  proof (cases "length (embedding c) = length q")
    case True
    then obtain s where s: "cosineSimilarity q (embedding c) = Inr s"
      using cosineSimilarity_Inr [of q "embedding c"] by auto
    from True Cons.prems have "\<exists>c \<in> set cs. length (embedding c) \<noteq> length q" by auto
    then have "search_loop q m cs acc' = Inl VectorsLengthMismatch" for acc'
      by (rule Cons.IH)
    then show ?thesis
      using s by simp
  next
    case False
    then have "cosineSimilarity q (embedding c) = Inl VectorsLengthMismatch"
      by (auto simp: cosineSimilarity_def)
    then show ?thesis by simp
  qed
qed

text \<open>The stored chunks whose similarity to the query is at least \<open>m\<close>, in corpus order.\<close>

definition passing :: "real list \<Rightarrow> real \<Rightarrow> SearchChunk list \<Rightarrow> SearchChunk list" where
  "passing q m cs =
     filter (\<lambda>c. case cosineSimilarity q (embedding c) of Inl e \<Rightarrow> False | Inr s \<Rightarrow> m \<le> s) cs"

lemma search_loop_matching:
  "\<forall>c \<in> set cs. length (embedding c) = length q \<Longrightarrow>
     \<exists>rs. search_loop q m cs acc = Inr (acc @ rs)
        \<and> (\<forall>r \<in> set rs. m \<le> score r)
        \<and> length rs = length (passing q m cs)"
proof (induction cs arbitrary: acc)
  case Nil
  then show ?case by (simp add: passing_def)
next
  case (Cons c cs)
  from Cons.prems obtain s where s: "cosineSimilarity q (embedding c) = Inr s"
    using cosineSimilarity_Inr [of q "embedding c"] by auto
  from Cons.prems have rest: "\<forall>c \<in> set cs. length (embedding c) = length q" by simp
  show ?case
  proof (cases "m \<le> s")
    case True
    from Cons.IH [OF rest, of "acc @ [\<lparr>chunk = c, score = s\<rparr>]"]
    obtain rs where rs: "search_loop q m cs (acc @ [\<lparr>chunk = c, score = s\<rparr>])
          = Inr ((acc @ [\<lparr>chunk = c, score = s\<rparr>]) @ rs)"
        "\<forall>r \<in> set rs. m \<le> score r" "length rs = length (passing q m cs)"
      by blast
    have "search_loop q m (c # cs) acc = Inr (acc @ (\<lparr>chunk = c, score = s\<rparr> # rs))"
      using s True rs(1) by simp
    moreover have "\<forall>r \<in> set (\<lparr>chunk = c, score = s\<rparr> # rs). m \<le> score r"
      using True rs(2) by simp
    moreover have "length (\<lparr>chunk = c, score = s\<rparr> # rs) = length (passing q m (c # cs))"
      using s True rs(3) by (simp add: passing_def)
    ultimately show ?thesis by blast
  next
    case False
    from Cons.IH [OF rest, of acc]
    obtain rs where rs: "search_loop q m cs acc = Inr (acc @ rs)"
        "\<forall>r \<in> set rs. m \<le> score r" "length rs = length (passing q m cs)"
      by blast
    have "search_loop q m (c # cs) acc = Inr (acc @ rs)"
      using s False rs(1) by simp
    moreover have "length rs = length (passing q m (c # cs))"
      using s False rs(3) by (simp add: passing_def)
    ultimately show ?thesis using rs(2) by blast
  qed
qed

lemma sort_results_descending:
  "Suc i < length (sort_results rs) \<Longrightarrow>
     score (sort_results rs ! Suc i) \<le> score (sort_results rs ! i)"
proof -
  assume i: "Suc i < length (sort_results rs)"
  have "sorted (map (\<lambda>r. - score r) (sort_results rs))"
    by (simp add: sort_results_def)
  then have "map (\<lambda>r. - score r) (sort_results rs) ! i
      \<le> map (\<lambda>r. - score r) (sort_results rs) ! Suc i"
    using i by (intro sorted_nth_mono) simp_all
  then show ?thesis using i by simp
qed

lemma slice0_nth: "i < length (slice0 xs e) \<Longrightarrow> slice0 xs e ! i = xs ! i"
  by (simp add: slice0_def split: if_splits)

lemma slice0_length_le: "length (slice0 xs e) \<le> length xs"
  by (auto simp: slice0_def)

lemma slice0_set: "set (slice0 xs e) \<subseteq> set xs"
  by (auto simp: slice0_def dest: in_set_takeD)

lemma slice0_length_topK: "0 \<le> e \<Longrightarrow> int (length (slice0 xs e)) \<le> e"
  by (simp add: slice0_def)

text \<open>
  The similarity in exact arithmetic.  With real numbers for the numbers of the source,
  \<open>cosineSimilarity\<close> is the quotient of the dot product by the product of the norms,
  or 0 when a norm is 0; it lies between \<open>-1\<close> and \<open>1\<close> (Cauchy-Schwarz) and is
  \<open>1\<close> for a vector with itself.  The source computes in IEEE doubles, where each
  operation rounds: these facts say nothing on the rounded values.
\<close>

definition dot :: "real list \<Rightarrow> real list \<Rightarrow> real" where
  "dot a b = (\<Sum>i<length a. a ! i * b ! i)"

lemma fold_sums:
  fixes a b :: "real list"
  shows "fold (\<lambda>i (d, na, nb). (d + a ! i * b ! i, na + a ! i * a ! i, nb + b ! i * b ! i))
        [0..<n] (d0, na0, nb0)
     = (d0 + (\<Sum>i<n. a ! i * b ! i), na0 + (\<Sum>i<n. a ! i * a ! i), nb0 + (\<Sum>i<n. b ! i * b ! i))"
  by (induction n) simp_all

lemma cosineSimilarity_sums:
  assumes "length a = length b"
  shows "cosineSimilarity a b =
     Inr (if dot a a = 0 \<or> dot b b = 0 then 0
          else dot a b / (sqrt (dot a a) * sqrt (dot b b)))"
  using assms by (simp add: cosineSimilarity_def fold_sums dot_def)

lemma cauchy_schwarz:
  fixes f g :: "nat \<Rightarrow> real"
  shows "(\<Sum>i<n. f i * g i)\<^sup>2 \<le> (\<Sum>i<n. f i * f i) * (\<Sum>i<n. g i * g i)"
proof -
  let ?A = "\<Sum>i<n. f i * f i" and ?B = "\<Sum>i<n. g i * g i" and ?D = "\<Sum>i<n. f i * g i"
  have "0 \<le> (\<Sum>i<n. (?B * f i - ?D * g i)\<^sup>2)"
    by (intro sum_nonneg) simp
  also have "(\<Sum>i<n. (?B * f i - ?D * g i)\<^sup>2)
      = (\<Sum>i<n. ?B * ?B * (f i * f i) - 2 * ?B * ?D * (f i * g i) + ?D * ?D * (g i * g i))"
    by (intro sum.cong refl) (simp add: power2_eq_square algebra_simps)
  also have "\<dots> = ?B * ?B * ?A - 2 * ?B * ?D * ?D + ?D * ?D * ?B"
    by (simp add: sum.distrib sum_subtractf sum_distrib_left)
  also have "\<dots> = ?B * (?A * ?B - ?D\<^sup>2)"
    by (simp add: power2_eq_square algebra_simps)
  finally have nonneg: "0 \<le> ?B * (?A * ?B - ?D\<^sup>2)" .
  have B0: "0 \<le> ?B" by (intro sum_nonneg) simp
  show ?thesis
  proof (cases "?B = 0")
    case True
    then have "\<forall>i \<in> {..<n}. g i * g i = 0"
      by (subst (asm) sum_nonneg_eq_0_iff) simp_all
    then have "?D = 0" by simp
    with True show ?thesis by simp
  next
    case False
    with B0 have "0 < ?B" by simp
    with nonneg have "0 \<le> ?A * ?B - ?D\<^sup>2"
      by (simp add: zero_le_mult_iff)
    then show ?thesis by simp
  qed
qed

lemma dot_bound: "\<bar>dot a b\<bar> \<le> sqrt (dot a a) * sqrt (dot b b)" if "length a = length b"
proof -
  have "(dot a b)\<^sup>2 \<le> dot a a * dot b b"
    using cauchy_schwarz [of "\<lambda>i. a ! i" "\<lambda>i. b ! i" "length a"] that by (simp add: dot_def)
  then have "sqrt ((dot a b)\<^sup>2) \<le> sqrt (dot a a * dot b b)"
    by (rule real_sqrt_le_mono)
  then show ?thesis by (simp add: real_sqrt_mult)
qed

lemma dot_self_nonneg: "0 \<le> dot a a"
  by (simp add: dot_def sum_nonneg)

lemma dot_self_pos: "\<exists>x \<in> set a. x \<noteq> 0 \<Longrightarrow> 0 < dot a a"
proof -
  assume "\<exists>x \<in> set a. x \<noteq> 0"
  then obtain i where i: "i < length a" "a ! i \<noteq> 0" by (auto simp: in_set_conv_nth)
  have "dot a a = 0 \<longleftrightarrow> (\<forall>i \<in> {..<length a}. a ! i * a ! i = 0)"
    unfolding dot_def by (intro sum_nonneg_eq_0_iff) simp_all
  with i have "dot a a \<noteq> 0" by auto
  with dot_self_nonneg [of a] show ?thesis by simp
qed

lemma cosineSimilarity_exact:
  assumes "length a = length b"
  shows "\<exists>s. cosineSimilarity a b = Inr s
     \<and> s = (if dot a a = 0 \<or> dot b b = 0 then 0
            else dot a b / (sqrt (dot a a) * sqrt (dot b b)))
     \<and> - 1 \<le> s \<and> s \<le> 1"
proof (cases "dot a a = 0 \<or> dot b b = 0")
  case True
  then show ?thesis using assms by (simp add: cosineSimilarity_sums)
next
  case False
  then have pos: "0 < sqrt (dot a a) * sqrt (dot b b)"
    using dot_self_nonneg [of a] dot_self_nonneg [of b] by simp
  have "\<bar>dot a b / (sqrt (dot a a) * sqrt (dot b b))\<bar>
      = \<bar>dot a b\<bar> / (sqrt (dot a a) * sqrt (dot b b))"
    using pos by (simp only: abs_divide abs_of_pos)
  also have "\<dots> \<le> 1"
    using dot_bound [OF assms] pos by (simp only: divide_le_eq_1_pos)
  finally have "\<bar>dot a b / (sqrt (dot a a) * sqrt (dot b b))\<bar> \<le> 1" .
  then have "- 1 \<le> dot a b / (sqrt (dot a a) * sqrt (dot b b))"
    "dot a b / (sqrt (dot a a) * sqrt (dot b b)) \<le> 1"
    by (simp_all only: abs_le_iff minus_le_iff)
  then show ?thesis using assms False by (simp add: cosineSimilarity_sums)
qed

lemma cosineSimilarity_self:
  assumes "\<exists>x \<in> set a. x \<noteq> 0"
  shows "cosineSimilarity a a = Inr 1"
  using dot_self_pos [OF assms] by (simp add: cosineSimilarity_sums)

text \<open>
  C8.  Whatever the query vector, \<open>topK\<close> and \<open>minScore\<close>, a search on an engine that is
  not loaded throws the not-loaded error; it does not return a list, empty or not, and
  the engine as constructed is in that state.
\<close>

theorem search_before_load:
  "\<not> isLoaded this \<Longrightarrow>
     fst (search this queryEmbedding topK minScore) = Inl SearchEngineNotLoaded
   \<and> fst (search this queryEmbedding topK minScore) \<noteq> Inr []
   \<and> fst (search new_SearchEngine queryEmbedding topK minScore) = Inl SearchEngineNotLoaded"
  by (simp add: search_def new_SearchEngine_def)

theorem search_before_load_witness:
  "\<not> isLoaded \<lparr>chunks = [\<lparr>id_field = js ''a'', pageName = [], href = [], fullContent = js ''b'',
                           embedding = [1]\<rparr>], isLoaded = False\<rparr>
   \<and> fst (search \<lparr>chunks = [\<lparr>id_field = js ''a'', pageName = [], href = [], fullContent = js ''b'',
                           embedding = [1]\<rparr>], isLoaded = False\<rparr> [] 10 (1 / 10))
       = Inl SearchEngineNotLoaded"
  using search_before_load
    [of "\<lparr>chunks = [\<lparr>id_field = js ''a'', pageName = [], href = [], fullContent = js ''b'',
                           embedding = [1]\<rparr>], isLoaded = False\<rparr>" "[]" 10 "1 / 10"]
  by simp

text \<open>
  C7.  On a loaded engine, a query vector whose length differs from the embedding length
  of some stored chunk makes \<open>search\<close> throw the length-mismatch error of
  \<open>cosineSimilarity\<close>.  The engine is returned as it was, and a later query whose vector
  has the length of the stored embeddings returns a result list.
\<close>

theorem search_dimension_mismatch:
  "isLoaded this \<Longrightarrow> \<exists>c \<in> set (chunks this). length (embedding c) \<noteq> length q \<Longrightarrow>
     fst (search this q topK minScore) = Inl VectorsLengthMismatch
   \<and> snd (search this q topK minScore) = this
   \<and> ((\<forall>c \<in> set (chunks this). length (embedding c) = length q') \<longrightarrow>
        (\<exists>rs. fst (search (snd (search this q topK minScore)) q' topK' minScore') = Inr rs))"
proof -
  assume loaded: "isLoaded this"
    and mismatch: "\<exists>c \<in> set (chunks this). length (embedding c) \<noteq> length q"
  have thrown: "search_loop q minScore (chunks this) [] = Inl VectorsLengthMismatch"
    using mismatch by (rule search_loop_mismatch)
  have first: "search this q topK minScore = (Inl VectorsLengthMismatch, this)"
    using loaded thrown by (simp add: search_def)
  have later: "\<exists>rs. fst (search this q' topK' minScore') = Inr rs"
    if "\<forall>c \<in> set (chunks this). length (embedding c) = length q'"
  proof -
    from search_loop_matching [OF that, of minScore' "[]"]
    obtain rs where "search_loop q' minScore' (chunks this) [] = Inr rs" by auto
    then show ?thesis using loaded by (simp add: search_def)
  qed
  show ?thesis using first later by simp
qed

theorem search_dimension_mismatch_witness:
  "isLoaded \<lparr>chunks = [\<lparr>id_field = js ''a'', pageName = [], href = [], fullContent = js ''b'',
                         embedding = [1]\<rparr>], isLoaded = True\<rparr>
   \<and> fst (search \<lparr>chunks = [\<lparr>id_field = js ''a'', pageName = [], href = [], fullContent = js ''b'',
                         embedding = [1]\<rparr>], isLoaded = True\<rparr> [1, 2] 10 (1 / 10))
       = Inl VectorsLengthMismatch
   \<and> (\<exists>rs. fst (search (snd (search \<lparr>chunks = [\<lparr>id_field = js ''a'', pageName = [], href = [],
                         fullContent = js ''b'', embedding = [1]\<rparr>], isLoaded = True\<rparr>
                         [1, 2] 10 (1 / 10))) [1] 10 (1 / 10)) = Inr rs)"
  using search_dimension_mismatch
    [where this = "\<lparr>chunks = [\<lparr>id_field = js ''a'', pageName = [], href = [], fullContent = js ''b'',
                         embedding = [1]\<rparr>], isLoaded = True\<rparr>"
       and q = "[1, 2]" and q' = "[1]" and topK = 10 and minScore = "1 / 10"
       and topK' = 10 and minScore' = "1 / 10"]
  by auto

lemma search_loaded_engine:
  "search_loop [1, 0] (1 / 10) [chunk_a, chunk_b, chunk_c] []
     = Inr [\<lparr>chunk = chunk_a, score = 3 / 5\<rparr>, \<lparr>chunk = chunk_b, score = 1\<rparr>,
            \<lparr>chunk = chunk_c, score = 4 / 5\<rparr>]"
  by (simp add: chunk_a_def chunk_b_def chunk_c_def cosineSimilarity_def)

lemma passing_loaded_engine:
  "passing [1, 0] (1 / 10) [chunk_a, chunk_b, chunk_c] = [chunk_a, chunk_b, chunk_c]"
  by (simp add: passing_def chunk_a_def chunk_b_def chunk_c_def cosineSimilarity_def)

text \<open>
  C1, as amended.  On a loaded engine and a query vector of the length of every stored
  embedding, \<open>search\<close> returns a list whose scores are all at least \<open>minScore\<close>, which
  is in descending order of score, and which is no longer than the number of stored
  chunks whose similarity is at least \<open>minScore\<close>; when \<open>topK\<close> is not negative it is
  no longer than \<open>topK\<close> either.
\<close>

theorem search_results_ordered:
  assumes "isLoaded this"
    and "\<forall>c \<in> set (chunks this). length (embedding c) = length q"
  shows "\<exists>rs. fst (search this q topK minScore) = Inr rs
     \<and> (\<forall>r \<in> set rs. minScore \<le> score r)
     \<and> (\<forall>i. Suc i < length rs \<longrightarrow> score (rs ! Suc i) \<le> score (rs ! i))
     \<and> length rs \<le> length (passing q minScore (chunks this))
     \<and> (0 \<le> topK \<longrightarrow>
          int (length rs) \<le> min topK (int (length (passing q minScore (chunks this)))))"
proof -
  from search_loop_matching [OF assms(2), of minScore "[]"]
  obtain res where res: "search_loop q minScore (chunks this) [] = Inr res"
      "\<forall>r \<in> set res. minScore \<le> score r"
      "length res = length (passing q minScore (chunks this))"
    by auto
  define rs where "rs = slice0 (sort_results res) topK"
  have ret: "fst (search this q topK minScore) = Inr rs"
    using assms(1) res(1) by (simp add: search_def rs_def)
  have "set rs \<subseteq> set res"
    using slice0_set [of "sort_results res" topK] by (simp add: rs_def sort_results_def)
  then have filtered: "\<forall>r \<in> set rs. minScore \<le> score r"
    using res(2) by blast
  have ordered: "score (rs ! Suc i) \<le> score (rs ! i)" if "Suc i < length rs" for i
  proof -
    have len: "length rs \<le> length (sort_results res)"
      unfolding rs_def by (rule slice0_length_le)
    have "rs ! Suc i = sort_results res ! Suc i" "rs ! i = sort_results res ! i"
      using that by (simp_all add: rs_def slice0_nth)
    moreover have "score (sort_results res ! Suc i) \<le> score (sort_results res ! i)"
      using that len by (intro sort_results_descending) simp
    ultimately show ?thesis by simp
  qed
  have count: "length rs \<le> length (passing q minScore (chunks this))"
    using slice0_length_le [of "sort_results res" topK] res(3)
    by (simp add: rs_def sort_results_def)
  have top: "int (length rs) \<le> topK" if "0 \<le> topK"
    unfolding rs_def using that by (rule slice0_length_topK)
  show ?thesis
    using ret filtered ordered count top by auto
qed

theorem search_results_ordered_witness:
  "isLoaded loaded_engine
   \<and> list_all (\<lambda>c. length (embedding c) = length [1, 0 :: real]) (chunks loaded_engine)
   \<and> (0::int) \<le> 2
   \<and> fst (search loaded_engine [1, 0] 2 (1 / 10))
       = Inr [\<lparr>chunk = chunk_b, score = 1\<rparr>, \<lparr>chunk = chunk_c, score = 4 / 5\<rparr>]
   \<and> (\<exists>rs. fst (search loaded_engine [1, 0] 2 (1 / 10)) = Inr rs
         \<and> int (length rs) \<le> min 2 (int (length (passing [1, 0] (1 / 10) (chunks loaded_engine)))))"
proof -
  have loaded: "isLoaded loaded_engine"
    by (simp add: loaded_engine_def)
  have dims: "\<forall>c \<in> set (chunks loaded_engine). length (embedding c) = length [1, 0 :: real]"
    by (simp add: loaded_engine_def chunk_a_def chunk_b_def chunk_c_def)
  have ev: "fst (search loaded_engine [1, 0] 2 (1 / 10))
      = Inr [\<lparr>chunk = chunk_b, score = 1\<rparr>, \<lparr>chunk = chunk_c, score = 4 / 5\<rparr>]"
    by (simp add: search_def loaded_engine_def search_loaded_engine sort_results_def slice0_def
          del: search_loop.simps)
  from search_results_ordered [OF loaded dims, of 2 "1 / 10"]
  show ?thesis using loaded dims ev by (auto simp: list_all_iff)
qed

text \<open>
  C1 as stated fails for a negative \<open>topK\<close>: \<^verbatim>\<open>slice(0, -1)\<close> drops the last result
  only, so that two results are returned where \<open>min topK 3\<close> is \<open>-1\<close>.
\<close>

theorem search_negative_topK_counterexample:
  "isLoaded loaded_engine
   \<and> fst (search loaded_engine [1, 0] (- 1) (1 / 10))
       = Inr [\<lparr>chunk = chunk_b, score = 1\<rparr>, \<lparr>chunk = chunk_c, score = 4 / 5\<rparr>]
   \<and> \<not> int (length [\<lparr>chunk = chunk_b, score = 1\<rparr>, \<lparr>chunk = chunk_c, score = 4 / 5\<rparr>])
         \<le> min (- 1) (int (length (passing [1, 0] (1 / 10) (chunks loaded_engine))))"
  by (simp add: search_def loaded_engine_def search_loaded_engine passing_loaded_engine
        sort_results_def slice0_def del: search_loop.simps)

section \<open>Properties of the splitter\<close>

declare sentence_parts.simps [simp del] slices_from.simps [simp del]

lemma estimateTokens_div: "estimateTokens s = (length s + 3) div 4"
proof -
  have "\<lceil>real n / 4\<rceil> = int ((n + 3) div 4)" for n :: nat
  proof -
    have "real n / 4 = of_int (int n) / of_int 4" by simp
    then have "\<lceil>real n / 4\<rceil> = - (- int n div 4)"
      by (simp only: ceiling_divide_eq_div)
    also have "\<dots> = int ((n + 3) div 4)" by (simp add: zdiv_int) 
    finally show ?thesis .
  qed
  then show ?thesis by (simp add: estimateTokens_def)
qed

lemma charLimit_div: "charLimit m = max (36 * m div 10) 1"
proof (cases "m = 0")
  case True
  then show ?thesis by (simp add: charLimit_def)
next
  case False
  then have "1 \<le> 4 * real m * (9 / 10)" by simp
  then have m1: "max (4 * real m * (9 / 10)) 1 = real (36 * m) / real 10" by simp
  have "charLimit m = nat \<lfloor>real (36 * m) / real 10\<rfloor>"
    unfolding charLimit_def m1 ..
  also have "\<dots> = 36 * m div 10"
    by (simp only: floor_divide_of_nat_eq nat_int)
  also have "\<dots> = max (36 * m div 10) 1" using False by simp
  finally show ?thesis .
qed

lemma is_ws_10 [simp]: "is_ws 10" and is_ws_32 [simp]: "is_ws 32"
  by (simp_all add: is_ws_def)

lemma squash_append [simp]: "squash (a @ b) = squash a @ squash b"
  by (simp add: squash_def)

lemma squash_dropWhile: "squash (dropWhile is_ws s) = squash s"
  by (induction s) (simp_all add: squash_def)

lemma squash_rev: "squash (rev s) = rev (squash s)"
  by (simp add: squash_def rev_filter)

lemma squash_trim [simp]: "squash (trim s) = squash s"
  by (simp add: trim_def squash_rev squash_dropWhile)

lemma squash_Nil_iff: "squash s = [] \<longleftrightarrow> (\<forall>c \<in> set s. is_ws c)"
  by (auto simp: squash_def filter_empty_conv)

lemma trim_Nil_iff: "trim s = [] \<longleftrightarrow> (\<forall>c \<in> set s. is_ws c)"
proof
  assume "trim s = []"
  then have "squash (trim s) = []" by (simp add: squash_def)
  then show "\<forall>c \<in> set s. is_ws c" by (simp add: squash_Nil_iff)
next
  assume "\<forall>c \<in> set s. is_ws c"
  then have d: "dropWhile is_ws s = []" by (metis dropWhile_eq_Nil_conv)
  show "trim s = []" unfolding trim_def d by simp
qed

lemma split_from_squash:
  "squash (concat (split_from cur s)) = squash cur @ squash s"
  by (induction cur s rule: split_from.induct) (simp_all add: squash_def)

lemma split_paragraphs_squash:
  "squash (concat (filter (\<lambda>p. trim p \<noteq> []) (split_paragraphs s))) = squash s"
proof -
  have drop_blank: "squash (concat (filter (\<lambda>p. trim p \<noteq> []) ps)) = squash (concat ps)"
    for ps
    by (induction ps) (auto simp: trim_Nil_iff squash_Nil_iff [symmetric])
  have "squash (concat (split_paragraphs s)) = squash s"
    using split_from_squash [of "[]" s] by (simp add: split_paragraphs_def squash_def)
  then show ?thesis
    by (simp only: drop_blank)
qed

lemma sentence_exec_append:
  "sentence_exec s = Some (m, rest) \<Longrightarrow> m @ rest = s"
  by (induction s arbitrary: m rest rule: sentence_exec.induct)
     (auto split: if_splits option.splits)

lemma sentence_parts_concat: "concat (sentence_parts s) = s"
proof (induction s rule: sentence_parts.induct)
  case (1 s)
  show ?case
  proof (cases "sentence_exec s")
    case None
    then show ?thesis by (subst sentence_parts.simps) simp
  next
    case (Some mr)
    obtain m rest where mr: "mr = (m, rest)" by (cases mr)
    with Some 1 have "concat (sentence_parts rest) = rest" by simp
    moreover have "m @ rest = s" using Some mr by (simp add: sentence_exec_append)
    ultimately show ?thesis using Some mr by (subst sentence_parts.simps) simp
  qed
qed

lemma splitBySentences_squash: "squash (concat (splitBySentences s)) = squash s"
proof -
  have "squash (concat (filter (\<lambda>p. p \<noteq> []) (map trim ps))) = squash (concat ps)" for ps
    by (induction ps) (auto simp: trim_Nil_iff squash_Nil_iff [symmetric])
  from this [of "sentence_parts s"] show ?thesis
    by (simp only: splitBySentences_def sentence_parts_concat)
qed


lemma slices_from_length:
  "sl \<in> set (slices_from step s i) \<Longrightarrow> length sl \<le> step \<and> sl \<noteq> []"
proof (induction step s i rule: slices_from.induct)
  case (1 step s i)
  show ?case
  proof (cases "i < length s \<and> 0 < step")
    case True
    with 1(2) have "sl = take step (drop i s) \<or> sl \<in> set (slices_from step s (i + step))"
      by (subst (asm) slices_from.simps) simp
    then show ?thesis using 1(1) True by auto
  next
    case False
    with 1(2) show ?thesis by (subst (asm) slices_from.simps) simp
  qed
qed

lemma charLimit_pos: "0 < charLimit m"
  by (simp add: charLimit_div)


lemma hardSlice_tokens:
  assumes "0 < m" and "sl \<in> set (hardSliceByCharacters s m)"
  shows "estimateTokens sl \<le> m"
proof -
  have "length sl \<le> charLimit m"
    using assms(2) slices_from_length by (auto simp: hardSliceByCharacters_def)
  then have "length sl \<le> 36 * m div 10"
    using assms(1) by (simp add: charLimit_div)
  then show ?thesis by (simp add: estimateTokens_div)
qed

lemma hardSlice_nonempty:
  "s \<noteq> [] \<Longrightarrow> hardSliceByCharacters s m \<noteq> []"
  using charLimit_pos [of m]
  by (subst hardSliceByCharacters_def, subst slices_from.simps) simp


definition contents :: "'a splitter \<Rightarrow> jsstring" where
  "contents st = concat (map fullContent (subChunks st))"

definition child_of :: "'a Chunk_scheme \<Rightarrow> (jsstring \<Rightarrow> bool) \<Rightarrow> 'a Chunk_scheme \<Rightarrow> bool" where
  "child_of parent R ch =
     (\<exists>k c. ch = parent\<lparr>id_field := part_id (id_field parent) k, fullContent := c\<rparr> \<and> R c)"

definition children_ok :: "'a Chunk_scheme \<Rightarrow> (jsstring \<Rightarrow> bool) \<Rightarrow> 'a splitter \<Rightarrow> bool" where
  "children_ok parent R st = (\<forall>ch \<in> set (subChunks st). child_of parent R ch)"

lemma push_part_buffer [simp]: "buffer (push_part parent c st) = buffer st"
  by (simp add: push_part_def)

lemma push_part_contents [simp]: "contents (push_part parent c st) = contents st @ c"
  by (simp add: push_part_def contents_def)

lemma push_part_nonempty [simp]: "subChunks (push_part parent c st) \<noteq> []"
  by (simp add: push_part_def)

lemma push_part_ok:
  "R c \<Longrightarrow> children_ok parent R st \<Longrightarrow> children_ok parent R (push_part parent c st)"
  by (auto simp: children_ok_def push_part_def child_of_def)

lemma fold_push_buffer [simp]: "buffer (fold (push_part parent) cs st) = buffer st"
  by (induction cs arbitrary: st) simp_all

lemma fold_push_contents [simp]:
  "contents (fold (push_part parent) cs st) = contents st @ concat cs"
  by (induction cs arbitrary: st) simp_all

lemma fold_push_nonempty:
  "cs \<noteq> [] \<or> subChunks st \<noteq> [] \<Longrightarrow> subChunks (fold (push_part parent) cs st) \<noteq> []"
  by (induction cs arbitrary: st) auto

lemma fold_push_ok:
  "\<forall>c \<in> set cs. R c \<Longrightarrow> children_ok parent R st \<Longrightarrow>
     children_ok parent R (fold (push_part parent) cs st)"
  by (induction cs arbitrary: st) (simp_all add: push_part_ok)

lemma squash_Nil [simp]: "squash [] = []"
  by (simp add: squash_def)

lemma squash_Cons [simp]: "squash (c # s) = (if is_ws c then squash s else c # squash s)"
  by (simp add: squash_def)

lemma sentence_loop_buffer [simp]:
  "buffer (sentence_loop parent m ss sb st) = buffer st"
  by (induction ss arbitrary: sb st) (simp_all add: Let_def)


lemma sentence_loop_ok:
  assumes "\<And>c. estimateTokens c \<le> m \<Longrightarrow> R c"
    and "\<And>s sl. sl \<in> set (hardSliceByCharacters s m) \<Longrightarrow> R sl"
  shows "estimateTokens sb \<le> m \<Longrightarrow> children_ok parent R st \<Longrightarrow>
     children_ok parent R (sentence_loop parent m ss sb st)"
proof (induction ss arbitrary: sb st)
  case Nil
  then show ?case using assms(1) by (simp add: push_part_ok)
next
  case (Cons sentence rest)
  let ?tentative = "sb @ (if sb \<noteq> [] then [32] else []) @ sentence"
  let ?st1 = "if sb \<noteq> [] then push_part parent sb st else st"
  have st1: "children_ok parent R ?st1"
    using Cons.prems assms(1) by (simp add: push_part_ok)
  show ?case
  proof (cases "estimateTokens ?tentative > m")
    case True
    show ?thesis
    proof (cases "estimateTokens sentence > m")
      case big: True
      have "children_ok parent R
              (fold (push_part parent) (hardSliceByCharacters sentence m) ?st1)"
        using st1 assms(2) by (intro fold_push_ok) auto
      then have "children_ok parent R (sentence_loop parent m rest []
              (fold (push_part parent) (hardSliceByCharacters sentence m) ?st1))"
        by (intro Cons.IH) (simp_all add: estimateTokens_div)
      then show ?thesis using True big by (simp add: Let_def)
    next
      case small: False
      then have "children_ok parent R (sentence_loop parent m rest sentence ?st1)"
        using st1 by (intro Cons.IH) simp_all
      then show ?thesis using True small by (simp add: Let_def)
    qed
  next
    case False
    then have "children_ok parent R (sentence_loop parent m rest ?tentative st)"
      using Cons.prems(2) by (intro Cons.IH) simp_all
    then show ?thesis using False by (simp add: Let_def)
  qed
qed

lemma sentence_loop_nonempty:
  "[] \<notin> set ss \<Longrightarrow> ss \<noteq> [] \<or> sb \<noteq> [] \<or> subChunks st \<noteq> [] \<Longrightarrow>
     subChunks (sentence_loop parent m ss sb st) \<noteq> []"
proof (induction ss arbitrary: sb st)
  case Nil
  then show ?case by auto
next
  case (Cons sentence rest)
  from Cons.prems(1) have ne: "sentence \<noteq> []" and rest: "[] \<notin> set rest" by auto
  let ?tentative = "sb @ (if sb \<noteq> [] then [32] else []) @ sentence"
  let ?st1 = "if sb \<noteq> [] then push_part parent sb st else st"
  show ?case
  proof (cases "estimateTokens ?tentative > m")
    case True
    show ?thesis
    proof (cases "estimateTokens sentence > m")
      case big: True
      have "hardSliceByCharacters sentence m \<noteq> []"
        using ne by (rule hardSlice_nonempty)
      then have "subChunks (fold (push_part parent) (hardSliceByCharacters sentence m) ?st1) \<noteq> []"
        by (intro fold_push_nonempty) simp
      then have "subChunks (sentence_loop parent m rest []
              (fold (push_part parent) (hardSliceByCharacters sentence m) ?st1)) \<noteq> []"
        using rest by (intro Cons.IH) simp_all
      then show ?thesis using True big by (simp add: Let_def)
    next
      case small: False
      have "subChunks (sentence_loop parent m rest sentence ?st1) \<noteq> []"
        using rest ne by (intro Cons.IH) simp_all
      then show ?thesis using True small by (simp add: Let_def)
    qed
  next
    case False
    have "subChunks (sentence_loop parent m rest ?tentative st) \<noteq> []"
      using rest ne by (intro Cons.IH) simp_all
    then show ?thesis using False by (simp add: Let_def)
  qed
qed


lemma contents_buffer_update [simp]: "contents (st\<lparr>buffer := b\<rparr>) = contents st"
  by (simp add: contents_def)



lemma pushBufferIfAny_ok:
  "R (buffer st) \<Longrightarrow> children_ok parent R st \<Longrightarrow> children_ok parent R (pushBufferIfAny parent st)"
  by (auto simp: pushBufferIfAny_def children_ok_def push_part_def child_of_def)

lemma pushBufferIfAny_nonempty:
  "subChunks st \<noteq> [] \<or> squash (buffer st) \<noteq> [] \<Longrightarrow>
     subChunks (pushBufferIfAny parent st) \<noteq> []"
  by (auto simp: pushBufferIfAny_def trim_Nil_iff squash_Nil_iff)

lemma pushBufferIfAny_keeps:
  "subChunks st \<noteq> [] \<Longrightarrow> subChunks (pushBufferIfAny parent st) \<noteq> []"
  by (simp add: pushBufferIfAny_nonempty)


lemma paragraph_loop_ok:
  assumes "\<And>c. estimateTokens c \<le> m \<Longrightarrow> R c"
    and "\<And>s sl. sl \<in> set (hardSliceByCharacters s m) \<Longrightarrow> R sl"
  shows "estimateTokens (buffer st) \<le> m \<Longrightarrow> children_ok parent R st \<Longrightarrow>
     children_ok parent R (paragraph_loop parent m ps st)
     \<and> estimateTokens (buffer (paragraph_loop parent m ps st)) \<le> m"
proof (induction ps arbitrary: st)
  case Nil
  then show ?case by simp
next
  case (Cons rawParagraph rest)
  let ?paragraph = "trim rawParagraph"
  let ?tentative = "buffer st @ (if buffer st \<noteq> [] then [10, 10] else []) @ ?paragraph"
  have flushed: "children_ok parent R (pushBufferIfAny parent st)"
    using Cons.prems assms(1) by (intro pushBufferIfAny_ok) simp_all
  have flushed_buffer: "estimateTokens (buffer (pushBufferIfAny parent st)) \<le> m"
    using Cons.prems(1) by (simp add: pushBufferIfAny_def estimateTokens_div)
  show ?case
  proof (cases "estimateTokens ?paragraph > m")
    case True
    let ?st1 = "sentence_loop parent m (splitBySentences ?paragraph) [] (pushBufferIfAny parent st)"
    have "children_ok parent R ?st1"
      using assms flushed by (intro sentence_loop_ok) (simp_all add: estimateTokens_div)
    moreover have "estimateTokens (buffer ?st1) \<le> m"
      using flushed_buffer by simp
    ultimately show ?thesis
      using Cons.IH [of ?st1] True by (simp add: Let_def)
  next
    case small: False
    show ?thesis
    proof (cases "estimateTokens ?tentative > m")
      case True
      let ?st1 = "(pushBufferIfAny parent st)\<lparr>buffer := ?paragraph\<rparr>"
      have "children_ok parent R ?st1"
        using flushed by (simp add: children_ok_def)
      moreover have "estimateTokens (buffer ?st1) \<le> m"
        using small by simp
      ultimately show ?thesis
        using Cons.IH [of ?st1] True small by (simp add: Let_def)
    next
      case False
      let ?st1 = "st\<lparr>buffer := ?tentative\<rparr>"
      have "children_ok parent R ?st1"
        using Cons.prems(2) by (simp add: children_ok_def)
      moreover have "estimateTokens (buffer ?st1) \<le> m"
        using False by simp
      ultimately show ?thesis
        using Cons.IH [of ?st1] False small by (simp add: Let_def)
    qed
  qed
qed

lemma splitBySentences_nonempty:
  "squash s \<noteq> [] \<Longrightarrow> splitBySentences s \<noteq> [] \<and> [] \<notin> set (splitBySentences s)"
proof
  assume "squash s \<noteq> []"
  then have "squash (concat (splitBySentences s)) \<noteq> []"
    by (simp add: splitBySentences_squash)
  then show "splitBySentences s \<noteq> []" by auto
next
  show "[] \<notin> set (splitBySentences s)"
    by (simp add: splitBySentences_def)
qed

lemma paragraph_loop_nonempty:
  "\<forall>p \<in> set ps. squash p \<noteq> [] \<Longrightarrow>
   ps \<noteq> [] \<or> subChunks st \<noteq> [] \<or> squash (buffer st) \<noteq> [] \<Longrightarrow>
     subChunks (paragraph_loop parent m ps st) \<noteq> []
     \<or> squash (buffer (paragraph_loop parent m ps st)) \<noteq> []"
proof (induction ps arbitrary: st)
  case Nil
  then show ?case by simp
next
  case (Cons rawParagraph rest)
  let ?paragraph = "trim rawParagraph"
  let ?tentative = "buffer st @ (if buffer st \<noteq> [] then [10, 10] else []) @ ?paragraph"
  from Cons.prems(1) have para: "squash ?paragraph \<noteq> []"
    and rest: "\<forall>p \<in> set rest. squash p \<noteq> []" by simp_all
  show ?case
  proof (cases "estimateTokens ?paragraph > m")
    case True
    let ?st1 = "sentence_loop parent m (splitBySentences ?paragraph) [] (pushBufferIfAny parent st)"
    have "subChunks ?st1 \<noteq> []"
      using splitBySentences_nonempty [OF para] by (intro sentence_loop_nonempty) simp_all
    then show ?thesis
      using Cons.IH [of ?st1] rest True by (simp add: Let_def)
  next
    case small: False
    show ?thesis
    proof (cases "estimateTokens ?tentative > m")
      case True
      let ?st1 = "(pushBufferIfAny parent st)\<lparr>buffer := ?paragraph\<rparr>"
      have "squash (buffer ?st1) \<noteq> []" using para by simp
      then show ?thesis
        using Cons.IH [of ?st1] rest True small by (simp add: Let_def)
    next
      case False
      let ?st1 = "st\<lparr>buffer := ?tentative\<rparr>"
      have "squash (buffer ?st1) \<noteq> []" using para by simp
      then show ?thesis
        using Cons.IH [of ?st1] rest False small by (simp add: Let_def)
    qed
  qed
qed


definition split_run :: "'a Chunk_scheme \<Rightarrow> nat \<Rightarrow> 'a splitter" where
  "split_run parent m =
     pushBufferIfAny parent
       (paragraph_loop parent m
          (filter (\<lambda>p. length (trim p) > 0) (split_paragraphs (fullContent parent)))
          \<lparr>subChunks = [], buffer = [], partIndex = 0\<rparr>)"

lemma splitLargeChunk_run:
  "splitLargeChunk parent m =
     (if estimateTokens (fullContent parent) \<le> m then [parent]
      else if subChunks (split_run parent m) \<noteq> [] then subChunks (split_run parent m)
      else [parent])"
  by (simp add: splitLargeChunk_def split_run_def Let_def)

lemma split_run_ok:
  assumes "\<And>c. estimateTokens c \<le> m \<Longrightarrow> R c"
    and "\<And>s sl. sl \<in> set (hardSliceByCharacters s m) \<Longrightarrow> R sl"
  shows "children_ok parent R (split_run parent m)"
proof -
  let ?ps = "filter (\<lambda>p. length (trim p) > 0) (split_paragraphs (fullContent parent))"
  let ?st0 = "\<lparr>subChunks = [], buffer = [], partIndex = 0\<rparr> :: 'a splitter"
  have "children_ok parent R ?st0" by (simp add: children_ok_def)
  moreover have "estimateTokens (buffer ?st0) \<le> m" by (simp add: estimateTokens_div)
  ultimately have "children_ok parent R (paragraph_loop parent m ?ps ?st0)
      \<and> estimateTokens (buffer (paragraph_loop parent m ?ps ?st0)) \<le> m"
    using assms by (intro paragraph_loop_ok) auto
  then show ?thesis
    unfolding split_run_def using assms(1) by (intro pushBufferIfAny_ok) simp_all
qed


lemma split_run_nonempty:
  assumes "squash (fullContent parent) \<noteq> []"
  shows "subChunks (split_run parent m) \<noteq> []"
proof -
  let ?ps = "filter (\<lambda>p. length (trim p) > 0) (split_paragraphs (fullContent parent))"
  let ?st0 = "\<lparr>subChunks = [], buffer = [], partIndex = 0\<rparr> :: 'a splitter"
  have "squash (concat ?ps) \<noteq> []"
    using assms by (simp add: split_paragraphs_squash)
  then have "?ps \<noteq> []" by auto
  moreover have "\<forall>p \<in> set ?ps. squash p \<noteq> []"
    by (auto simp: squash_Nil_iff trim_Nil_iff)
  ultimately have "subChunks (paragraph_loop parent m ?ps ?st0) \<noteq> []
      \<or> squash (buffer (paragraph_loop parent m ?ps ?st0)) \<noteq> []"
    by (intro paragraph_loop_nonempty) simp_all
  then show ?thesis
    unfolding split_run_def by (rule pushBufferIfAny_nonempty)
qed

lemma split_run_blank:
  assumes "\<forall>p \<in> set (split_paragraphs (fullContent parent)). length (trim p) = 0"
  shows "subChunks (split_run parent m) = []"
proof -
  have "filter (\<lambda>p. length (trim p) > 0) (split_paragraphs (fullContent parent)) = []"
    using assms by (simp add: filter_empty_conv)
  then show ?thesis
    by (simp add: split_run_def pushBufferIfAny_def trim_def)
qed

lemma blank_paragraphs:
  assumes "\<forall>c \<in> set s. is_ws c"
  shows "\<forall>p \<in> set (split_paragraphs s). length (trim p) = 0"
proof
  fix p assume p: "p \<in> set (split_paragraphs s)"
  have "squash (concat (split_paragraphs s)) = []"
    using split_from_squash [of "[]" s] assms by (simp add: split_paragraphs_def squash_Nil_iff)
  then have "\<forall>c \<in> set (concat (split_paragraphs s)). is_ws c"
    by (simp only: squash_Nil_iff)
  then have "\<forall>c \<in> set p. is_ws c" using p by auto
  then show "length (trim p) = 0" by (simp add: trim_Nil_iff)
qed

lemma splitLargeChunk_whitespace:
  "\<forall>c \<in> set (fullContent parent). is_ws c \<Longrightarrow> splitLargeChunk parent m = [parent]"
  by (simp add: splitLargeChunk_run split_run_blank blank_paragraphs)

lemma splitLargeChunk_within:
  assumes "0 < m" "\<exists>c \<in> set (fullContent parent). \<not> is_ws c"
    and "ch \<in> set (splitLargeChunk parent m)"
  shows "estimateTokens (fullContent ch) \<le> m"
proof -
  have "children_ok parent (\<lambda>c. estimateTokens c \<le> m) (split_run parent m)"
    using assms(1) by (intro split_run_ok) (simp_all add: hardSlice_tokens)
  moreover have "subChunks (split_run parent m) \<noteq> []"
    using assms(2) by (intro split_run_nonempty) (simp add: squash_Nil_iff)
  ultimately show ?thesis
    using assms(3)
    by (auto simp: splitLargeChunk_run children_ok_def child_of_def split: if_splits)
qed


text \<open>
  Conservation up to white space at the boundaries.  \<open>pieces\<close> are the contents of the
  chunks pushed so far; \<open>ws_end\<close> holds of a text that does not end in the middle of a
  word, \<open>spaced\<close> of a list of texts of which only the last may end in the middle of a
  word (the matches of the sentence expression); \<open>joined\<close> is the text that
  \<^verbatim>\<open>split('\n\n')\<close> cut; and the \<open>words\<close> of a text are its maximal runs of
  characters that are not white space.
\<close>

definition pieces :: "'a splitter \<Rightarrow> jsstring list" where
  "pieces st = map fullContent (subChunks st)"




function words :: "jsstring \<Rightarrow> jsstring list" where
  "words [] = []"
| "words (c # s) =
     (if is_ws c then words s
      else (c # takeWhile (\<lambda>x. \<not> is_ws x) s) # words (dropWhile (\<lambda>x. \<not> is_ws x) s))"
  by pat_completeness auto
termination
  by (relation "measure length") (auto simp: less_Suc_eq_le length_dropWhile_le)

lemma words_blank: "\<forall>c \<in> set s. is_ws c \<Longrightarrow> words s = []"
  by (induction s) simp_all

lemma while_append:
  "b = [] \<or> \<not> P (hd b) \<Longrightarrow>
     takeWhile P (s @ b) = takeWhile P s \<and> dropWhile P (s @ b) = dropWhile P s @ b"
proof (cases b)
  case Nil
  then show ?thesis by simp
next
  case (Cons x xs)
  assume "b = [] \<or> \<not> P (hd b)"
  with Cons have "\<not> P x" by simp
  with Cons show ?thesis by (induction s) simp_all
qed

lemma words_append_ws:
  "b = [] \<or> is_ws (hd b) \<Longrightarrow> words (a @ b) = words a @ words b"
proof (induction a rule: words.induct)
  case 1
  then show ?case by simp
next
  case (2 c s)
  have w: "takeWhile (\<lambda>x. \<not> is_ws x) (s @ b) = takeWhile (\<lambda>x. \<not> is_ws x) s"
    "dropWhile (\<lambda>x. \<not> is_ws x) (s @ b) = dropWhile (\<lambda>x. \<not> is_ws x) s @ b"
    using while_append [of b "\<lambda>x. \<not> is_ws x" s] 2(3) by simp_all
  show ?case
  proof (cases "is_ws c")
    case True
    with 2 show ?thesis by simp
  next
    case False
    with 2 w show ?thesis by simp
  qed
qed

lemma words_lead: "\<forall>c \<in> set g. is_ws c \<Longrightarrow> words (g @ s) = words s"
  by (induction g) simp_all

lemma words_trail: "\<forall>c \<in> set g. is_ws c \<Longrightarrow> words (s @ g) = words s"
proof -
  assume g: "\<forall>c \<in> set g. is_ws c"
  then have "g = [] \<or> is_ws (hd g)" by (cases g) simp_all
  then have "words (s @ g) = words s @ words g" by (rule words_append_ws)
  then show ?thesis using g by (simp add: words_blank)
qed

lemma words_gap:
  assumes "w \<noteq> []" "\<forall>x \<in> set w. is_ws x"
  shows "words (a @ w @ b) = words a @ words b"
proof -
  from assms have "is_ws (hd (w @ b))" by (cases w) simp_all
  then have "words (a @ w @ b) = words a @ words (w @ b)"
    by (intro words_append_ws) simp
  then show ?thesis using assms(2) by (simp add: words_lead)
qed

text \<open>
  Normalizing white space at boundaries keeps the words, and with them the characters
  that are not white space.
\<close>

lemma normalizes_words: "normalizes p c \<Longrightarrow> words p = words c"
proof (induction rule: normalizes.induct)
  case (same u)
  show ?case by simp
next
  case (join p c w sep u)
  have "words (p @ w @ u) = words p @ words u"
    using join(2,3) by (rule words_gap)
  moreover have "words (c @ sep @ u) = words c @ words u"
    using join(4) by (intro words_gap) auto
  ultimately show ?case using join.IH by simp
qed

lemma normalizes_squash: "normalizes p c \<Longrightarrow> squash p = squash c"
proof (induction rule: normalizes.induct)
  case (same u)
  show ?case by simp
next
  case (join p c w sep u)
  have "squash w = []" using join(3) by (simp add: squash_Nil_iff)
  moreover have "squash sep = []" using join(4) by auto
  ultimately show ?case using join.IH by simp
qed


lemma normalizes_blank:
  assumes "normalizes p c" "\<forall>x \<in> set c. is_ws x"
  shows "\<forall>x \<in> set p. is_ws x"
proof -
  have "squash c = []" using assms(2) by (simp add: squash_Nil_iff)
  with normalizes_squash [OF assms(1)] have "squash p = []" by simp
  then show ?thesis by (simp add: squash_Nil_iff)
qed




lemma tiles_single: "normalizes p c \<Longrightarrow> tiles [c] p"
proof -
  assume "normalizes p c"
  then have "p = [] @ p @ [] \<and> (\<forall>x \<in> set ([]::jsstring). is_ws x) \<and> normalizes p c \<and> tiles [] []"
    by simp
  then show ?thesis unfolding tiles.simps by blast
qed



lemma tiles_squash: "tiles cs s \<Longrightarrow> squash (concat cs) = squash s"
proof (induction cs arbitrary: s)
  case Nil
  then have "squash s = []" by (simp add: squash_Nil_iff)
  then show ?case by simp
next
  case (Cons c cs)
  from Cons.prems obtain g p rest where s: "s = g @ p @ rest" "\<forall>x \<in> set g. is_ws x"
    "normalizes p c" "tiles cs rest" by auto
  have "squash g = []" using s(2) by (simp add: squash_Nil_iff)
  moreover have "squash p = squash c" using s(3) by (rule normalizes_squash)
  moreover have "squash (concat cs) = squash rest" using s(4) by (rule Cons.IH)
  ultimately show ?case using s(1) by simp
qed

lemma tiles_one_words: "tiles [c] s \<Longrightarrow> words s = words c"
proof -
  assume "tiles [c] s"
  then obtain g p rest where s: "s = g @ p @ rest" "\<forall>x \<in> set g. is_ws x"
    "normalizes p c" "\<forall>x \<in> set rest. is_ws x" by auto
  have "words s = words (p @ rest)" using s(1,2) by (simp add: words_lead)
  also have "\<dots> = words p" using s(4) by (rule words_trail)
  finally show "words s = words c" using normalizes_words [OF s(3)] by simp
qed

lemma pieces_push [simp]: "pieces (push_part parent c st) = pieces st @ [c]"
  by (simp add: pieces_def push_part_def)


lemma pieces_buffer [simp]: "pieces (st\<lparr>buffer := b\<rparr>) = pieces st"
  by (simp add: pieces_def)









lemma sentence_parts_Nil [simp]: "sentence_parts [] = []"
  by (subst sentence_parts.simps) simp







lemma split_from_Nil [simp]: "split_from cur s \<noteq> []"
  by (induction cur s rule: split_from.induct) simp_all




text \<open>
  The separators count: a content without the two line feeds between its paragraphs or
  without the space between its sentences has other words than its piece of the parent,
  and it tiles nothing that has that piece.
\<close>

lemma tiles_separator:
  "tiles [js ''aa'' @ [10, 10] @ js ''bb''] (js ''aa'' @ [10, 10, 10] @ js ''bb'')
   \<and> \<not> tiles [js ''aabb''] (js ''aa'' @ [10, 10, 10] @ js ''bb'')
   \<and> tiles [js ''Hi.'' @ [32] @ js ''Yo!''] (js ''Hi.'' @ [10] @ js ''Yo!'')
   \<and> \<not> tiles [js ''Hi.Yo!''] (js ''Hi.'' @ [10] @ js ''Yo!'')"
proof (intro conjI)
  have "normalizes (js ''aa'' @ [10, 10, 10] @ js ''bb'') (js ''aa'' @ [10, 10] @ js ''bb'')"
    by (intro normalizes.join normalizes.same) simp_all
  then show "tiles [js ''aa'' @ [10, 10] @ js ''bb''] (js ''aa'' @ [10, 10, 10] @ js ''bb'')"
    by (rule tiles_single)
  have "normalizes (js ''Hi.'' @ [10] @ js ''Yo!'') (js ''Hi.'' @ [32] @ js ''Yo!'')"
    by (intro normalizes.join normalizes.same) simp_all
  then show "tiles [js ''Hi.'' @ [32] @ js ''Yo!''] (js ''Hi.'' @ [10] @ js ''Yo!'')"
    by (rule tiles_single)
  have "words (js ''aa'' @ [10, 10, 10] @ js ''bb'') \<noteq> words (js ''aabb'')"
    by (simp add: is_ws_def)
  then show "\<not> tiles [js ''aabb''] (js ''aa'' @ [10, 10, 10] @ js ''bb'')"
    using tiles_one_words by blast
  have "words (js ''Hi.'' @ [10] @ js ''Yo!'') \<noteq> words (js ''Hi.Yo!'')"
    by (simp add: is_ws_def)
  then show "\<not> tiles [js ''Hi.Yo!''] (js ''Hi.'' @ [10] @ js ''Yo!'')"
    using tiles_one_words by blast
qed





text \<open>
  C10.  When the parent is estimated above the budget and no paragraph of its content
  (the pieces between double line feeds) has a character that is not white space,
  \<open>splitLargeChunk\<close> returns the parent alone and unchanged, so that the returned chunk
  is estimated above the budget.
\<close>

theorem splitLargeChunk_blank_unchanged:
  "estimateTokens (fullContent parent) > maxTokens \<Longrightarrow>
   \<forall>p \<in> set (split_paragraphs (fullContent parent)). length (trim p) = 0 \<Longrightarrow>
     splitLargeChunk parent maxTokens = [parent]
     \<and> (\<forall>ch \<in> set (splitLargeChunk parent maxTokens).
           estimateTokens (fullContent ch) > maxTokens)"
  by (simp add: splitLargeChunk_run split_run_blank)

theorem splitLargeChunk_blank_unchanged_witness:
  "estimateTokens (fullContent blank_chunk) > 1
   \<and> list_all (\<lambda>p. length (trim p) = 0) (split_paragraphs (fullContent blank_chunk))
   \<and> splitLargeChunk blank_chunk 1 = [blank_chunk]
   \<and> estimateTokens (fullContent blank_chunk) = 2"
  using splitLargeChunk_blank_unchanged [of 1 blank_chunk]
  by (simp add: blank_chunk_def estimateTokens_div split_paragraphs_def trim_def)

section \<open>Properties of the batching loop\<close>

text \<open>
  A batch as the loop builds it, the reason for which a batch is closed before a chunk,
  and the invariant of the loop.  \<open>settled\<close> holds of every chunk that the two passes
  produce: it is within the per-input limit, or splitting it again gives it back.
\<close>

definition good_batch :: "'a Chunk_scheme list \<Rightarrow> bool" where
  "good_batch b =
     (b \<noteq> [] \<and> length b \<le> MAX_BATCH_SIZE
      \<and> (length b = 1 \<or> batch_tokens b \<le> MAX_TOKENS_PER_BATCH))"

definition closed_by :: "'a Chunk_scheme list \<Rightarrow> 'a Chunk_scheme \<Rightarrow> bool" where
  "closed_by b x =
     (length b \<ge> MAX_BATCH_SIZE
      \<or> batch_tokens b + estimateTokens (fullContent x) > MAX_TOKENS_PER_BATCH)"

fun chain :: "'a Chunk_scheme list list \<Rightarrow> bool" where
  "chain (b # b' # bs) = (closed_by b (hd b') \<and> chain (b' # bs))"
| "chain bs = True"

definition resplit :: "'a Chunk_scheme \<Rightarrow> 'a Chunk_scheme list" where
  "resplit c = splitLargeChunk c (min 1000 (MAX_TOKENS_PER_INPUT - 200))"

definition settled :: "'a Chunk_scheme \<Rightarrow> bool" where
  "settled c = (estimateTokens (fullContent c) \<le> MAX_TOKENS_PER_INPUT \<or> resplit c = [c])"

definition batching_inv :: "'a Chunk_scheme list \<Rightarrow> 'a batching \<Rightarrow> bool" where
  "batching_inv pending st =
     (currentBatchTokens st = batch_tokens (currentBatch st)
      \<and> length (currentBatch st) \<le> MAX_BATCH_SIZE
      \<and> (length (currentBatch st) \<le> 1 \<or> batch_tokens (currentBatch st) \<le> MAX_TOKENS_PER_BATCH)
      \<and> (\<forall>b \<in> set (handed st). good_batch b)
      \<and> chain (handed st)
      \<and> (handed st \<noteq> [] \<longrightarrow>
           (if currentBatch st = []
            then pending \<noteq> [] \<and> estimateTokens (fullContent (hd pending)) > MAX_TOKENS_PER_INPUT
            else closed_by (last (handed st)) (hd (currentBatch st))))
      \<and> (\<forall>c \<in> set pending. settled c))"

lemma chain_snoc:
  "chain (bs @ [b]) \<longleftrightarrow> chain bs \<and> (bs \<noteq> [] \<longrightarrow> closed_by (last bs) (hd b))"
  by (induction bs rule: chain.induct) auto

lemma chain_nth:
  "chain bs \<Longrightarrow> Suc i < length bs \<Longrightarrow> closed_by (bs ! i) (hd (bs ! Suc i))"
proof (induction bs arbitrary: i rule: chain.induct)
  case (1 b b' bs)
  then show ?case by (cases i) auto
qed auto

lemma batch_tokens_simps [simp]:
  "batch_tokens [] = 0"
  "batch_tokens (b @ b') = batch_tokens b + batch_tokens b'"
  "batch_tokens (c # b) = estimateTokens (fullContent c) + batch_tokens b"
  by (simp_all add: batch_tokens_def)

lemma process_batch_handed [simp]:
  "handed (fst (process_batch e st)) = handed st @ [currentBatch st]"
  by (simp add: process_batch_def split: sum.splits)

lemma process_batch_success:
  "\<forall>n ts. \<exists>v. e n ts = Inr v \<Longrightarrow> snd (process_batch e st) = None"
proof -
  assume "\<forall>n ts. \<exists>v. e n ts = Inr v"
  then obtain v where "e (batchNumber st) (map fullContent (currentBatch st)) = Inr v"
    by blast
  then show ?thesis by (simp add: process_batch_def)
qed

lemma current_good:
  "batching_inv p st \<Longrightarrow> currentBatch st \<noteq> [] \<Longrightarrow> good_batch (currentBatch st)"
  by (cases "currentBatch st") (auto simp: batching_inv_def good_batch_def)

lemma inv_handed_snoc:
  assumes "batching_inv p st" "currentBatch st \<noteq> []"
  shows "(\<forall>b \<in> set (handed st @ [currentBatch st]). good_batch b)
     \<and> chain (handed st @ [currentBatch st])"
  using assms current_good [OF assms] by (auto simp: batching_inv_def chain_snoc)

text \<open>The state after the first \<open>if\<close> of the loop body, when no error is thrown.\<close>

lemma flush_if_needed_cases:
  assumes "flush_if_needed e t st = (st1, r)"
  obtains (kept) "r = None" "st1 = st"
      "\<not> (length (currentBatch st) \<ge> MAX_BATCH_SIZE
          \<or> (length (currentBatch st) > 0 \<and> currentBatchTokens st + t > MAX_TOKENS_PER_BATCH))"
  | (thrown) err where "r = Some err" "currentBatch st \<noteq> []"
      "handed st1 = handed st @ [currentBatch st]"
  | (flushed) "r = None" "currentBatch st \<noteq> []"
      "handed st1 = handed st @ [currentBatch st]"
      "currentBatch st1 = []" "currentBatchTokens st1 = 0"
      "length (currentBatch st) \<ge> MAX_BATCH_SIZE
          \<or> currentBatchTokens st + t > MAX_TOKENS_PER_BATCH"
proof (cases "length (currentBatch st) \<ge> MAX_BATCH_SIZE
          \<or> (length (currentBatch st) > 0 \<and> currentBatchTokens st + t > MAX_TOKENS_PER_BATCH)")
  case False
  then have "flush_if_needed e t st = (st, None)"
    by (auto simp: flush_if_needed_def)
  with assms False show ?thesis by (intro kept) auto
next
  case True
  then have ne: "currentBatch st \<noteq> []" by (auto simp: MAX_BATCH_SIZE_def)
  obtain s1 r1 where pb: "process_batch e st = (s1, r1)" by (cases "process_batch e st")
  then have h: "handed s1 = handed st @ [currentBatch st]"
    using process_batch_handed [of e st] by simp
  show ?thesis
  proof (cases r1)
    case None
    then have "flush_if_needed e t st
        = (s1\<lparr>currentBatch := [], currentBatchTokens := 0, batchNumber := batchNumber s1 + 1\<rparr>, None)"
      using True pb by (auto simp: flush_if_needed_def)
    with assms h ne True show ?thesis by (intro flushed) auto
  next
    case (Some err)
    then have "flush_if_needed e t st = (s1, Some err)"
      using True pb by (auto simp: flush_if_needed_def)
    with assms h ne show ?thesis by (intro thrown [of err]) auto
  qed
qed

lemma batch_loop_Nil:
  "batch_loop e [] st =
     Some (if length (currentBatch st) > 0 then process_batch e st else (st, None))"
  by (subst batch_loop.simps) simp

lemma batch_loop_Cons:
  "batch_loop e (c # rest) st =
     (case flush_if_needed e (estimateTokens (fullContent c)) st of
        (st1, Some err) \<Rightarrow> Some (st1, Some err)
      | (st1, None) \<Rightarrow>
          if estimateTokens (fullContent c) > MAX_TOKENS_PER_INPUT
          then batch_loop e (resplit c @ rest) st1
          else batch_loop e rest
                 (st1\<lparr>currentBatch := currentBatch st1 @ [c],
                      currentBatchTokens :=
                        currentBatchTokens st1 + estimateTokens (fullContent c)\<rparr>))"
  unfolding resplit_def by (subst batch_loop.simps) simp

lemma batch_loop_returns:
  "\<forall>c \<in> set pending. estimateTokens (fullContent c) \<le> MAX_TOKENS_PER_INPUT \<Longrightarrow>
     \<exists>y. batch_loop e pending st = Some y"
proof (induction pending arbitrary: st)
  case Nil
  then show ?case by (simp add: batch_loop_Nil)
next
  case (Cons c rest)
  obtain st1 r where fl: "flush_if_needed e (estimateTokens (fullContent c)) st = (st1, r)"
    by (cases "flush_if_needed e (estimateTokens (fullContent c)) st")
  show ?case
  proof (cases r)
    case None
    with fl Cons show ?thesis by (simp add: batch_loop_Cons)
  next
    case (Some err)
    with fl show ?thesis by (simp add: batch_loop_Cons)
  qed
qed

lemma batch_loop_post:
  assumes "batch_loop e pending st = Some y"
  shows "batching_inv pending st \<longrightarrow>
       (\<forall>b \<in> set (handed (fst y)). good_batch b)
     \<and> chain (handed (fst y))
     \<and> (snd y = None \<longrightarrow>
          concat (handed (fst y)) = concat (handed st) @ currentBatch st @ pending)"
proof (rule batch_loop.raw_induct [where P = "\<lambda>e pending st y. batching_inv pending st \<longrightarrow>
       (\<forall>b \<in> set (handed (fst y)). good_batch b)
     \<and> chain (handed (fst y))
     \<and> (snd y = None \<longrightarrow>
          concat (handed (fst y)) = concat (handed st) @ currentBatch st @ pending)",
     OF _ assms], goal_cases)
  case (1 loop e pending st y)
  show ?case
  proof
    assume inv: "batching_inv pending st"
    show "(\<forall>b \<in> set (handed (fst y)). good_batch b)
     \<and> chain (handed (fst y))
     \<and> (snd y = None \<longrightarrow>
          concat (handed (fst y)) = concat (handed st) @ currentBatch st @ pending)"
    proof (cases pending)
      case Nil
      show ?thesis
      proof (cases "currentBatch st = []")
        case True
        with Nil 1(2) have "y = (st, None)" by simp
        then show ?thesis using inv True Nil by (simp add: batching_inv_def)
      next
        case False
        with Nil 1(2) have y: "y = process_batch e st" by simp
        then have "handed (fst y) = handed st @ [currentBatch st]" by simp
        then show ?thesis
          using inv_handed_snoc [OF inv False] Nil by simp
      qed
    next
      case (Cons c rest)
      let ?t = "estimateTokens (fullContent c)"
      obtain st1 r where fl: "flush_if_needed e ?t st = (st1, r)"
        by (cases "flush_if_needed e ?t st")
      from inv Cons have settled: "settled c" "\<forall>c \<in> set rest. settled c"
        by (simp_all add: batching_inv_def)
      from fl show ?thesis
      proof (cases rule: flush_if_needed_cases)
        case kept
        show ?thesis
        proof (cases "?t > MAX_TOKENS_PER_INPUT")
          case True
          with settled(1) have "resplit c = [c]" by (simp add: settled_def)
          with 1(2) Cons fl kept True have "loop e pending st = Some y"
            by (simp add: resplit_def)
          from 1(1) [OF this] inv show ?thesis by simp
        next
          case False
          let ?st2 = "st\<lparr>currentBatch := currentBatch st @ [c],
              currentBatchTokens := currentBatchTokens st + ?t\<rparr>"
          from 1(2) Cons fl kept False have run: "loop e rest ?st2 = Some y" by simp
          have "batching_inv rest ?st2"
            using inv kept(3) False Cons settled(2)
            by (cases "currentBatch st") (auto simp: batching_inv_def)
          with 1(1) [OF run] show ?thesis using Cons by simp
        qed
      next
        case (thrown err)
        with 1(2) Cons fl have "y = (st1, Some err)" by simp
        then show ?thesis
          using thrown inv_handed_snoc [OF inv thrown(2)] by simp
      next
        case flushed
        have closed: "closed_by (currentBatch st) c"
          using flushed(6) inv by (auto simp: closed_by_def batching_inv_def)
        note snoc = inv_handed_snoc [OF inv flushed(2)]
        show ?thesis
        proof (cases "?t > MAX_TOKENS_PER_INPUT")
          case True
          with settled(1) have "resplit c = [c]" by (simp add: settled_def)
          with 1(2) Cons fl flushed True have run: "loop e pending st1 = Some y"
            by (simp add: resplit_def)
          have "batching_inv pending st1"
            using snoc flushed True Cons settled
            by (simp add: batching_inv_def)
          with 1(1) [OF run] show ?thesis using flushed by simp
        next
          case False
          let ?st2 = "st1\<lparr>currentBatch := currentBatch st1 @ [c],
              currentBatchTokens := currentBatchTokens st1 + ?t\<rparr>"
          from 1(2) Cons fl flushed False have run: "loop e rest ?st2 = Some y" by simp
          have "batching_inv rest ?st2"
            using snoc flushed closed settled(2)
            by (simp add: batching_inv_def MAX_BATCH_SIZE_def)
          with 1(1) [OF run] show ?thesis using flushed Cons by simp
        qed
      qed
    qed
  qed
qed

lemma batch_loop_success:
  assumes "batch_loop e pending st = Some y"
  shows "(\<forall>n ts. \<exists>v. e n ts = Inr v) \<longrightarrow> snd y = None"
proof (rule batch_loop.raw_induct [where P = "\<lambda>e pending st y.
     (\<forall>n ts. \<exists>v. e n ts = Inr v) \<longrightarrow> snd y = None", OF _ assms], goal_cases)
  case (1 loop e pending st y)
  show ?case
  proof
    assume ok: "\<forall>n ts. \<exists>v. e n ts = Inr v"
    have pb: "snd (process_batch e s) = None" for s :: "'a batching"
      using ok by (rule process_batch_success)
    have fl: "snd (flush_if_needed e t s) = None" for t and s :: "'a batching"
      using pb [of s] by (cases "process_batch e s") (auto simp: flush_if_needed_def)
    show "snd y = None"
    proof (cases pending)
      case Nil
      with 1(2) pb [of st] show ?thesis by (auto split: if_splits)
    next
      case (Cons c rest)
      obtain st1 r where f: "flush_if_needed e (estimateTokens (fullContent c)) st = (st1, r)"
        by (cases "flush_if_needed e (estimateTokens (fullContent c)) st")
      with fl [of "estimateTokens (fullContent c)" st] have "r = None" by simp
      with 1(2) Cons f have "loop e (splitLargeChunk c (min 1000 (MAX_TOKENS_PER_INPUT - 200)) @ rest) st1 = Some y
          \<or> loop e rest (st1\<lparr>currentBatch := currentBatch st1 @ [c],
              currentBatchTokens := currentBatchTokens st1 + estimateTokens (fullContent c)\<rparr>) = Some y"
        by (auto split: if_splits)
      then show ?thesis using 1(1) ok by blast
    qed
  qed
qed

lemma batch_loop_stuck:
  assumes "batch_loop e pending st = Some y"
  shows "\<not> (pending \<noteq> [] \<and> currentBatch st = []
            \<and> estimateTokens (fullContent (hd pending)) > MAX_TOKENS_PER_INPUT
            \<and> resplit (hd pending) = [hd pending])"
proof (rule batch_loop.raw_induct [where P = "\<lambda>e pending st y.
     \<not> (pending \<noteq> [] \<and> currentBatch st = []
            \<and> estimateTokens (fullContent (hd pending)) > MAX_TOKENS_PER_INPUT
            \<and> resplit (hd pending) = [hd pending])", OF _ assms], goal_cases)
  case (1 loop e pending st y)
  show ?case
  proof
    assume stuck: "pending \<noteq> [] \<and> currentBatch st = []
            \<and> estimateTokens (fullContent (hd pending)) > MAX_TOKENS_PER_INPUT
            \<and> resplit (hd pending) = [hd pending]"
    then obtain c rest where p: "pending = c # rest" by (cases pending) auto
    have "flush_if_needed e (estimateTokens (fullContent c)) st = (st, None)"
      using stuck by (simp add: flush_if_needed_def MAX_BATCH_SIZE_def)
    with 1(2) stuck p have "loop e pending st = Some y"
      by (simp add: resplit_def)
    from 1(1) [OF this] stuck show False by simp
  qed
qed

lemma batch_tokens_take: "batch_tokens (take k b) \<le> batch_tokens b"
proof -
  have "batch_tokens b = batch_tokens (take k b) + batch_tokens (drop k b)"
    by (metis append_take_drop_id batch_tokens_simps(2))
  then show ?thesis by simp
qed

lemma good_batch_prefix:
  assumes "good_batch b" "0 < k" "k < length b"
  shows "k < MAX_BATCH_SIZE
     \<and> batch_tokens (take k b) + estimateTokens (fullContent (b ! k)) \<le> MAX_TOKENS_PER_BATCH"
proof -
  have "batch_tokens (take (Suc k) b) = batch_tokens (take k b) + estimateTokens (fullContent (b ! k))"
    using assms(3) by (simp add: take_Suc_conv_app_nth)
  moreover have "batch_tokens (take (Suc k) b) \<le> batch_tokens b"
    by (rule batch_tokens_take)
  moreover have "batch_tokens b \<le> MAX_TOKENS_PER_BATCH" "length b \<le> MAX_BATCH_SIZE"
    using assms by (auto simp: good_batch_def)
  ultimately show ?thesis using assms(3) by simp
qed

lemma batch_tokens_unit:
  "\<forall>c \<in> set b. estimateTokens (fullContent c) = 1 \<Longrightarrow> batch_tokens b = length b"
  by (induction b) simp_all

lemma small_unchanged:
  "estimateTokens (fullContent c) \<le> 1000 \<Longrightarrow> splitLargeChunk c 1000 = [c]"
  by (simp add: splitLargeChunk_def)

lemma normalized_small:
  assumes "\<forall>c \<in> set input. estimateTokens (fullContent c) \<le> 1000"
  shows "normalizedChunks input = input"
proof -
  have "processedChunks input = input"
    using assms by (induction input) (simp_all add: processedChunks_def small_unchanged)
  moreover have "concat (map (\<lambda>ch. if estimateTokens (fullContent ch) > MAX_TOKENS_PER_INPUT
                    then splitLargeChunk ch (min 1000 (MAX_TOKENS_PER_INPUT - 200))
                    else [ch]) input) = input"
    using assms by (induction input) (simp_all add: MAX_TOKENS_PER_INPUT_def)
  ultimately show ?thesis by (simp add: normalizedChunks_def)
qed

lemma two_batches:
  assumes good: "\<forall>b \<in> set bs. good_batch b"
    and ch: "chain bs"
    and cat: "concat bs = input"
    and len: "length input = 51"
    and unit: "\<forall>c \<in> set input. estimateTokens (fullContent c) = 1"
  shows "map length bs = [50, 1]"
proof -
  have tok: "batch_tokens b = length b" if "b \<in> set bs" for b
  proof -
    have "set b \<subseteq> set input" using that cat by auto
    then show ?thesis using unit by (intro batch_tokens_unit) auto
  qed
  have ne: "b \<noteq> []" and le: "length b \<le> 50" if "b \<in> set bs" for b
    using good that by (auto simp: good_batch_def MAX_BATCH_SIZE_def)
  show ?thesis
  proof (cases bs)
    case Nil
    then show ?thesis using cat len by simp
  next
    case (Cons b1 rest)
    show ?thesis
    proof (cases rest)
      case Nil
      then have "length b1 = 51" using Cons cat len by simp
      then show ?thesis using le [of b1] Cons by simp
    next
      case (Cons b2 rest')
      have b1: "b1 \<in> set bs" and b2: "b2 \<in> set bs"
        using \<open>bs = b1 # rest\<close> Cons by simp_all
      have "hd b2 \<in> set b2" using ne [OF b2] by simp
      then have "hd b2 \<in> set (concat bs)" using b2 by auto
      then have "hd b2 \<in> set input" using cat by simp
      then have "estimateTokens (fullContent (hd b2)) = 1" using unit by simp
      moreover have "closed_by b1 (hd b2)"
        using ch \<open>bs = b1 # rest\<close> Cons by simp
      ultimately have "length b1 \<ge> 50"
        using tok [OF b1] le [OF b1]
        by (simp add: closed_by_def MAX_BATCH_SIZE_def MAX_TOKENS_PER_BATCH_def)
      with le [OF b1] have l1: "length b1 = 50" by simp
      have "length (concat bs) = 51" using cat len by simp
      then have "length b1 + length b2 + length (concat rest') = 51"
        using \<open>bs = b1 # rest\<close> Cons by simp
      moreover have "0 < length b2" using ne [OF b2] by simp
      ultimately have l2: "length b2 = 1" and "length (concat rest') = 0"
        using l1 by linarith+
      then have "concat rest' = []" by simp
      have "rest' = []"
      proof (cases rest')
        case (Cons b3 r)
        then have "b3 \<in> set bs" using \<open>bs = b1 # rest\<close> \<open>rest = b2 # rest'\<close> by simp
        from ne [OF this] \<open>concat rest' = []\<close> Cons show ?thesis by simp
      qed simp
      then show ?thesis using l1 l2 \<open>bs = b1 # rest\<close> Cons by simp
    qed
  qed
qed

lemma resplit_1000: "resplit c = splitLargeChunk c 1000"
  by (simp add: resplit_def MAX_TOKENS_PER_INPUT_def)

lemma split_settled:
  assumes "x \<in> set (splitLargeChunk parent 1000)"
  shows "estimateTokens (fullContent x) \<le> 1000 \<or> splitLargeChunk x 1000 = [x]"
proof (cases "estimateTokens (fullContent parent) \<le> 1000")
  case True
  with assms show ?thesis by (simp add: splitLargeChunk_run)
next
  case big: False
  show ?thesis
  proof (cases "subChunks (split_run parent 1000) = []")
    case True
    with big assms have "x = parent" by (simp add: splitLargeChunk_run)
    moreover have "splitLargeChunk parent 1000 = [parent]"
      using big True by (simp add: splitLargeChunk_run)
    ultimately show ?thesis by simp
  next
    case False
    have "children_ok parent (\<lambda>c. estimateTokens c \<le> 1000) (split_run parent 1000)"
      by (intro split_run_ok) (simp_all add: hardSlice_tokens)
    with False big assms show ?thesis
      by (auto simp: splitLargeChunk_run children_ok_def child_of_def)
  qed
qed

lemma normalized_settled: "\<forall>c \<in> set (normalizedChunks input). settled c"
proof
  fix c assume "c \<in> set (normalizedChunks input)"
  then obtain ch where ch: "ch \<in> set (processedChunks input)"
    "c \<in> set (if estimateTokens (fullContent ch) > MAX_TOKENS_PER_INPUT
               then splitLargeChunk ch (min 1000 (MAX_TOKENS_PER_INPUT - 200)) else [ch])"
    by (auto simp: normalizedChunks_def)
  show "settled c"
  proof (cases "estimateTokens (fullContent ch) > MAX_TOKENS_PER_INPUT")
    case True
    with ch(2) have "c \<in> set (splitLargeChunk ch 1000)"
      by (simp add: MAX_TOKENS_PER_INPUT_def)
    from split_settled [OF this] show ?thesis
      by (auto simp: settled_def resplit_1000 MAX_TOKENS_PER_INPUT_def)
  next
    case False
    with ch(2) show ?thesis by (simp add: settled_def)
  qed
qed

lemma generateEmbeddings_post:
  assumes "generateEmbeddings e input = Some (st, err)"
  shows "(\<forall>b \<in> set (handed st). good_batch b) \<and> chain (handed st)
     \<and> (err = None \<longrightarrow> concat (handed st) = normalizedChunks input)
     \<and> ((\<forall>n ts. \<exists>v. e n ts = Inr v) \<longrightarrow> err = None)"
proof -
  let ?st0 = "\<lparr>currentBatch = [], currentBatchTokens = 0, batchNumber = 1,
      embeddedChunks = [], handed = []\<rparr> :: 'a batching"
  have run: "batch_loop e (normalizedChunks input) ?st0 = Some (st, err)"
    using assms by (simp add: generateEmbeddings_def)
  have "batching_inv (normalizedChunks input) ?st0"
    using normalized_settled [of input] by (simp add: batching_inv_def)
  with batch_loop_post [OF run] batch_loop_success [OF run] show ?thesis by simp
qed

lemma generateEmbeddings_returns:
  "\<forall>c \<in> set (normalizedChunks input). estimateTokens (fullContent c) \<le> MAX_TOKENS_PER_INPUT
     \<Longrightarrow> \<exists>st err. generateEmbeddings e input = Some (st, err)"
  using batch_loop_returns [of "normalizedChunks input" e]
  by (simp add: generateEmbeddings_def)

text \<open>
  A chunk of white space only that is estimated above the per-input limit is given back
  by every split, and the loop puts it in front of the pending chunks again and again:
  \<open>generateEmbeddings\<close> does not return.
\<close>

lemma generateEmbeddings_no_return:
  assumes "\<forall>x \<in> set (fullContent c). is_ws x"
    and "estimateTokens (fullContent c) > MAX_TOKENS_PER_INPUT"
  shows "generateEmbeddings e (c # input) = None"
proof (rule ccontr)
  assume "generateEmbeddings e (c # input) \<noteq> None"
  then obtain y where run: "generateEmbeddings e (c # input) = Some y" by auto
  have same: "splitLargeChunk c m = [c]" for m
    using assms(1) by (rule splitLargeChunk_whitespace)
  then have "normalizedChunks (c # input) = c # normalizedChunks input"
    using assms(2) by (simp add: normalizedChunks_def processedChunks_def)
  with run have "batch_loop e (c # normalizedChunks input)
      \<lparr>currentBatch = [], currentBatchTokens = 0, batchNumber = 1,
        embeddedChunks = [], handed = []\<rparr> = Some y"
    by (simp add: generateEmbeddings_def)
  from batch_loop_stuck [OF this] assms(2) same show False
    by (simp add: resplit_def)
qed

lemma normalized_within_limit:
  assumes "\<forall>c \<in> set input. \<exists>x \<in> set (fullContent c). \<not> is_ws x"
  shows "\<forall>c \<in> set (normalizedChunks input). estimateTokens (fullContent c) \<le> MAX_TOKENS_PER_INPUT"
proof -
  have p: "estimateTokens (fullContent c) \<le> 1000" if "c \<in> set (processedChunks input)" for c
  proof -
    from that obtain parent where "parent \<in> set input" "c \<in> set (splitLargeChunk parent 1000)"
      by (auto simp: processedChunks_def)
    then show ?thesis using assms splitLargeChunk_within [of 1000 parent c] by simp
  qed
  show ?thesis
  proof
    fix c assume "c \<in> set (normalizedChunks input)"
    then obtain ch where ch: "ch \<in> set (processedChunks input)"
      "c \<in> set (if estimateTokens (fullContent ch) > MAX_TOKENS_PER_INPUT
                 then splitLargeChunk ch (min 1000 (MAX_TOKENS_PER_INPUT - 200)) else [ch])"
      by (auto simp: normalizedChunks_def)
    then show "estimateTokens (fullContent c) \<le> MAX_TOKENS_PER_INPUT"
      using p [OF ch(1)] by (simp add: MAX_TOKENS_PER_INPUT_def)
  qed
qed

lemma big_blank_tokens: "estimateTokens (fullContent big_blank_chunk) = 6001"
  by (simp add: big_blank_chunk_def estimateTokens_div)

lemma big_blank_normalized: "normalizedChunks [big_blank_chunk] = [big_blank_chunk]"
proof -
  have "splitLargeChunk big_blank_chunk 1000 = [big_blank_chunk]"
    by (rule splitLargeChunk_whitespace) (simp add: big_blank_chunk_def)
  then show ?thesis
    by (simp add: normalizedChunks_def processedChunks_def big_blank_tokens MAX_TOKENS_PER_INPUT_def)
qed

text \<open>
  C5.  Whenever \<open>generateEmbeddings\<close> returns or throws, the batches it passed to
  \<^verbatim>\<open>embedBatch\<close> are such that: no batch is empty or has more than \<open>MAX_BATCH_SIZE\<close>
  chunks; a chunk was added to a batch that was not empty only while the batch had
  fewer than \<open>MAX_BATCH_SIZE\<close> chunks and the sum with the chunk stayed within
  \<open>MAX_TOKENS_PER_BATCH\<close>; a batch followed by another was closed because it was full
  or because the chunk that starts the next batch would have taken it over the token
  budget; when no call failed the batches, in order, are the chunks, in order, and 51
  chunks of one token each are passed as a batch of 50 and a batch of 1.  It does return
  or throw when the chunks that enter the loop are within the per-input limit (see
  \<open>normalized_within_limit\<close>; \<open>generateEmbeddings_no_return\<close> is a case where it
  does not).
\<close>

theorem generateEmbeddings_batches:
  "((\<forall>c \<in> set (normalizedChunks input).
        estimateTokens (fullContent c) \<le> MAX_TOKENS_PER_INPUT) \<longrightarrow>
      (\<exists>st err. generateEmbeddings embedBatch input = Some (st, err)))
   \<and> (generateEmbeddings embedBatch input = Some (st, err) \<longrightarrow>
       (\<forall>b \<in> set (handed st). b \<noteq> [] \<and> length b \<le> MAX_BATCH_SIZE
          \<and> (\<forall>k. 0 < k \<and> k < length b \<longrightarrow>
                k < MAX_BATCH_SIZE
                \<and> batch_tokens (take k b) + estimateTokens (fullContent (b ! k))
                    \<le> MAX_TOKENS_PER_BATCH))
     \<and> (\<forall>i. Suc i < length (handed st) \<longrightarrow>
           length (handed st ! i) \<ge> MAX_BATCH_SIZE
           \<or> batch_tokens (handed st ! i) + estimateTokens (fullContent (hd (handed st ! Suc i)))
               > MAX_TOKENS_PER_BATCH)
     \<and> (err = None \<longrightarrow> concat (handed st) = normalizedChunks input)
     \<and> ((\<forall>n ts. \<exists>v. embedBatch n ts = Inr v) \<longrightarrow> err = None)
     \<and> (err = None \<and> length input = 51
          \<and> (\<forall>c \<in> set input. estimateTokens (fullContent c) = 1)
          \<longrightarrow> map length (handed st) = [50, 1]))"
  (is "?returns \<and> (?run \<longrightarrow> ?post)")
proof (rule conjI)
  show ?returns
    using generateEmbeddings_returns [of input embedBatch] by blast
next
  show "?run \<longrightarrow> ?post"
  proof (rule impI, intro conjI)
  assume run: ?run
  from generateEmbeddings_post [OF run]
  have good: "\<forall>b \<in> set (handed st). good_batch b"
    and ch: "chain (handed st)"
    and cat: "err = None \<longrightarrow> concat (handed st) = normalizedChunks input"
    and ok: "(\<forall>n ts. \<exists>v. embedBatch n ts = Inr v) \<longrightarrow> err = None"
    by simp_all
  show "\<forall>b \<in> set (handed st). b \<noteq> [] \<and> length b \<le> MAX_BATCH_SIZE
          \<and> (\<forall>k. 0 < k \<and> k < length b \<longrightarrow>
                k < MAX_BATCH_SIZE
                \<and> batch_tokens (take k b) + estimateTokens (fullContent (b ! k))
                    \<le> MAX_TOKENS_PER_BATCH)"
  proof (intro ballI conjI allI impI)
    fix b assume b: "b \<in> set (handed st)"
    then show "b \<noteq> []" "length b \<le> MAX_BATCH_SIZE"
      using good by (auto simp: good_batch_def)
    fix k assume "0 < k \<and> k < length b"
    then show "k < MAX_BATCH_SIZE"
      "batch_tokens (take k b) + estimateTokens (fullContent (b ! k)) \<le> MAX_TOKENS_PER_BATCH"
      using good b good_batch_prefix [of b k] by simp_all
  qed
  show "\<forall>i. Suc i < length (handed st) \<longrightarrow>
           length (handed st ! i) \<ge> MAX_BATCH_SIZE
           \<or> batch_tokens (handed st ! i) + estimateTokens (fullContent (hd (handed st ! Suc i)))
               > MAX_TOKENS_PER_BATCH"
    using chain_nth [OF ch] by (simp add: closed_by_def)
  show "err = None \<longrightarrow> concat (handed st) = normalizedChunks input" by (rule cat)
  show "(\<forall>n ts. \<exists>v. embedBatch n ts = Inr v) \<longrightarrow> err = None" by (rule ok)
  show "err = None \<and> length input = 51
          \<and> (\<forall>c \<in> set input. estimateTokens (fullContent c) = 1)
          \<longrightarrow> map length (handed st) = [50, 1]"
  proof
    assume a: "err = None \<and> length input = 51
          \<and> (\<forall>c \<in> set input. estimateTokens (fullContent c) = 1)"
    then have "normalizedChunks input = input"
      by (intro normalized_small) simp
    with cat a have "concat (handed st) = input" by simp
    from two_batches [OF good ch this] a show "map length (handed st) = [50, 1]" by simp
  qed
qed
qed

theorem generateEmbeddings_batches_witness:
  "list_all (\<lambda>c. estimateTokens (fullContent c) \<le> MAX_TOKENS_PER_INPUT)
     (normalizedChunks (replicate 51 unit_chunk))
   \<and> length (replicate 51 unit_chunk) = 51
   \<and> list_all (\<lambda>c. estimateTokens (fullContent c) = 1) (replicate 51 unit_chunk)
   \<and> (\<exists>st. generateEmbeddings constant_embedder (replicate 51 unit_chunk) = Some (st, None)
         \<and> map length (handed st) = [50, 1])"
proof -
  have unit: "\<forall>c \<in> set (replicate 51 unit_chunk). estimateTokens (fullContent c) = 1"
    by (simp add: unit_chunk_def estimateTokens_div)
  then have norm: "normalizedChunks (replicate 51 unit_chunk) = replicate 51 unit_chunk"
    by (intro normalized_small) simp
  have H: "\<forall>c \<in> set (normalizedChunks (replicate 51 unit_chunk)).
      estimateTokens (fullContent c) \<le> MAX_TOKENS_PER_INPUT"
    using unit by (simp add: norm MAX_TOKENS_PER_INPUT_def)
  have ok: "\<forall>n ts. \<exists>v. constant_embedder n ts = Inr v"
    by (simp add: constant_embedder_def)
  from generateEmbeddings_batches [of "replicate 51 unit_chunk" constant_embedder] H
  obtain st err where
    run: "generateEmbeddings constant_embedder (replicate 51 unit_chunk) = Some (st, err)"
    by blast
  from generateEmbeddings_batches [of "replicate 51 unit_chunk" constant_embedder st err] run ok unit
  have "err = None" "map length (handed st) = [50, 1]"
    by simp_all
  with run have "\<exists>st. generateEmbeddings constant_embedder (replicate 51 unit_chunk)
        = Some (st, None) \<and> map length (handed st) = [50, 1]"
    by auto
  then show ?thesis
    using H unit by (simp add: list_all_iff)
qed

lemma split_large_blank:
  assumes "x \<in> set (splitLargeChunk parent 1000)" "1000 < estimateTokens (fullContent x)"
  shows "x = parent \<and> (\<forall>c \<in> set (fullContent parent). is_ws c)"
proof -
  have blank: "\<forall>c \<in> set (fullContent parent). is_ws c"
    using assms splitLargeChunk_within [of 1000 parent x] by fastforce
  then have "splitLargeChunk parent 1000 = [parent]"
    by (rule splitLargeChunk_whitespace)
  with assms(1) blank show ?thesis by simp
qed

text \<open>
  A chunk that enters the loop with an estimate above 1000 tokens (so also one above
  \<open>MAX_TOKENS_PER_BATCH\<close>) is a chunk of white space only, which no split reduces.
\<close>

lemma normalized_large_blank:
  assumes "c \<in> set (normalizedChunks input)" "1000 < estimateTokens (fullContent c)"
  shows "\<forall>x \<in> set (fullContent c). is_ws x"
proof -
  from assms(1) obtain ch where ch: "ch \<in> set (processedChunks input)"
    "c \<in> set (if estimateTokens (fullContent ch) > MAX_TOKENS_PER_INPUT
               then splitLargeChunk ch (min 1000 (MAX_TOKENS_PER_INPUT - 200)) else [ch])"
    by (auto simp: normalizedChunks_def)
  from ch(1) obtain parent where parent: "ch \<in> set (splitLargeChunk parent 1000)"
    by (auto simp: processedChunks_def)
  show ?thesis
  proof (cases "estimateTokens (fullContent ch) > MAX_TOKENS_PER_INPUT")
    case True
    with ch(2) have "c \<in> set (splitLargeChunk ch 1000)"
      by (simp add: MAX_TOKENS_PER_INPUT_def)
    from split_large_blank [OF this assms(2)] show ?thesis by simp
  next
    case False
    with ch(2) have "c = ch" by simp
    with parent assms(2) split_large_blank [of c parent] show ?thesis by simp
  qed
qed




section \<open>Properties of the cache\<close>

lemma stringify_chunk:
  "stringify (chunk_object c) =
     JObj [(js ''id'', JStr (id_field c)),
           (js ''pageName'', JStr (pageName c)),
           (js ''href'', JStr (href c)),
           (js ''fullContent'', JStr (fullContent c)),
           (js ''embedding'', JArr (map number_json (embedding_js c)))]"
  by (simp add: chunk_object_def comp_def)

lemma finite_numbers:
  "\<forall>x \<in> set ns. isFinite x \<Longrightarrow> \<exists>xs. ns = map Finite xs \<and> map number_json ns = map JNum xs"
proof (induction ns)
  case Nil
  then show ?case by simp
next
  case (Cons n ns)
  then obtain xs where xs: "ns = map Finite xs" "map number_json ns = map JNum xs" by auto
  from Cons.prems obtain x where "n = Finite x" by (cases n) simp_all
  with xs have "n # ns = map Finite (x # xs) \<and> map number_json (n # ns) = map JNum (x # xs)"
    by simp
  then show ?case by (rule exI [of _ "x # xs"])
qed

lemma check_chunk_saved:
  "id_field c \<noteq> [] \<Longrightarrow> pageName c \<noteq> [] \<Longrightarrow> href c \<noteq> [] \<Longrightarrow> fullContent c \<noteq> [] \<Longrightarrow>
     check_chunk (stringify (chunk_object c)) = Inr ()"
  by (simp add: check_chunk_def stringify_chunk)

lemma check_chunks_saved:
  "\<forall>c \<in> set cs. id_field c \<noteq> [] \<and> pageName c \<noteq> [] \<and> href c \<noteq> [] \<and> fullContent c \<noteq> [] \<Longrightarrow>
     check_chunks (map (\<lambda>c. stringify (chunk_object c)) cs) = Inr ()"
  by (induction cs) (simp_all add: check_chunk_saved)

lemma in_memory_saved:
  assumes "\<forall>x \<in> set (embedding_js c). isFinite x"
  shows "in_memory (stringify (chunk_object c)) = chunk_object c"
proof -
  from finite_numbers [OF assms] obtain xs where
    xs: "embedding_js c = map Finite xs" "map number_json (embedding_js c) = map JNum xs"
    by blast
  show ?thesis
    unfolding stringify_chunk xs(2) by (simp add: chunk_object_def xs(1) comp_def)
qed

text \<open>
  After \<open>saveCache\<close> the file at the cache path holds the text of \<^verbatim>\<open>cacheData\<close>, and
  there is no file at the temporary path.
\<close>

lemma readCache_saved:
  "readCache (saveCache cachePath now cs fs) cachePath
     = Json (JObj [(js ''timestamp'', JStr now),
                   (js ''version'', JStr (js ''1.0'')),
                   (js ''chunks'', JArr (map (\<lambda>c. stringify (chunk_object c)) cs)),
                   (js ''totalChunks'', JNum (real (length cs)))])"
  "saveCache cachePath now cs fs (cachePath @ js ''.tmp'') = None"
  by (simp_all add: readCache_def saveCache_def Let_def comp_def)

lemma loadCache_saved:
  "\<forall>c \<in> set cs. id_field c \<noteq> [] \<and> pageName c \<noteq> [] \<and> href c \<noteq> [] \<and> fullContent c \<noteq> [] \<Longrightarrow>
     loadCache (readCache (saveCache cachePath now cs fs) cachePath)
       = Some (map (\<lambda>c. stringify (chunk_object c)) cs)"
  by (simp add: loadCache_def loadCache_try_def readCache_saved check_chunks_saved)

text \<open>
  What \<open>SearchEngine_loadCache\<close> stores for a file that \<open>saveCache\<close> wrote: the value
  of the chunks saved, which the cast reads as \<^verbatim>\<open>SearchChunk[]\<close>.
\<close>

lemma SearchEngine_loadCache_saved:
  "SearchEngine_loadCache (readCache (saveCache cachePath now cs fs) cachePath) this
     = Inr \<lparr>chunks = Some (JArr (map (\<lambda>c. stringify (chunk_object c)) cs)), isLoaded = True\<rparr>"
  by (simp add: SearchEngine_loadCache_def readCache_saved)

text \<open>
  C6, as amended.  When every chunk has a non-empty \<open>id\<close>, \<open>pageName\<close>, \<open>href\<close> and
  \<open>fullContent\<close> and the numbers of its embedding are finite, \<open>loadCache\<close> after
  \<open>saveCache\<close>, on the same cache path and whatever files there were, returns a
  sequence of as many values as chunks were saved, which in memory are the objects saved
  (deep equality); the value at each index has the properties \<^verbatim>\<open>id\<close>,
  \<^verbatim>\<open>pageName\<close>, \<^verbatim>\<open>href\<close> and \<^verbatim>\<open>fullContent\<close> with the strings of the chunk
  saved at that index, and the property \<^verbatim>\<open>embedding\<close> with an array of its numbers,
  in order.
\<close>

theorem saveCache_loadCache:
  assumes "\<forall>c \<in> set cs.
      id_field c \<noteq> [] \<and> pageName c \<noteq> [] \<and> href c \<noteq> [] \<and> fullContent c \<noteq> []
      \<and> (\<forall>x \<in> set (embedding_js c). isFinite x)"
  shows "\<exists>loaded. loadCache (readCache (saveCache cachePath now cs fs) cachePath) = Some loaded
     \<and> length loaded = length cs
     \<and> map in_memory loaded = map chunk_object cs
     \<and> (\<forall>i < length cs.
           property (loaded ! i) (js ''id'') = Some (JStr (id_field (cs ! i)))
         \<and> property (loaded ! i) (js ''pageName'') = Some (JStr (pageName (cs ! i)))
         \<and> property (loaded ! i) (js ''href'') = Some (JStr (href (cs ! i)))
         \<and> property (loaded ! i) (js ''fullContent'') = Some (JStr (fullContent (cs ! i)))
         \<and> (\<exists>xs. property (loaded ! i) (js ''embedding'') = Some (JArr (map JNum xs))
                \<and> map Finite xs = embedding_js (cs ! i)))"
proof -
  let ?loaded = "map (\<lambda>c. stringify (chunk_object c)) cs"
  have load: "loadCache (readCache (saveCache cachePath now cs fs) cachePath) = Some ?loaded"
    using assms by (intro loadCache_saved) simp
  have len: "length ?loaded = length cs" by simp
  have deep: "map in_memory ?loaded = map chunk_object cs"
    using assms by (simp add: in_memory_saved)
  have fields: "property (?loaded ! i) (js ''id'') = Some (JStr (id_field (cs ! i)))
         \<and> property (?loaded ! i) (js ''pageName'') = Some (JStr (pageName (cs ! i)))
         \<and> property (?loaded ! i) (js ''href'') = Some (JStr (href (cs ! i)))
         \<and> property (?loaded ! i) (js ''fullContent'') = Some (JStr (fullContent (cs ! i)))
         \<and> (\<exists>xs. property (?loaded ! i) (js ''embedding'') = Some (JArr (map JNum xs))
                \<and> map Finite xs = embedding_js (cs ! i))"
    if i: "i < length cs" for i
  proof -
    from i have "cs ! i \<in> set cs" by simp
    with assms have "\<forall>x \<in> set (embedding_js (cs ! i)). isFinite x" by blast
    from finite_numbers [OF this] obtain xs where
      xs: "embedding_js (cs ! i) = map Finite xs"
        "map number_json (embedding_js (cs ! i)) = map JNum xs"
      by blast
    have at: "?loaded ! i
        = JObj [(js ''id'', JStr (id_field (cs ! i))),
                (js ''pageName'', JStr (pageName (cs ! i))),
                (js ''href'', JStr (href (cs ! i))),
                (js ''fullContent'', JStr (fullContent (cs ! i))),
                (js ''embedding'', JArr (map JNum xs))]"
      using i by (simp add: stringify_chunk xs(2))
    have "property (?loaded ! i) (js ''embedding'') = Some (JArr (map JNum xs))
        \<and> map Finite xs = embedding_js (cs ! i)"
      unfolding at using xs(1) by simp
    then have "\<exists>xs. property (?loaded ! i) (js ''embedding'') = Some (JArr (map JNum xs))
        \<and> map Finite xs = embedding_js (cs ! i)"
      by (rule exI [of _ xs])
    moreover have "property (?loaded ! i) (js ''id'') = Some (JStr (id_field (cs ! i)))"
      "property (?loaded ! i) (js ''pageName'') = Some (JStr (pageName (cs ! i)))"
      "property (?loaded ! i) (js ''href'') = Some (JStr (href (cs ! i)))"
      "property (?loaded ! i) (js ''fullContent'') = Some (JStr (fullContent (cs ! i)))"
      unfolding at by simp_all
    ultimately show ?thesis by (intro conjI)
  qed
  from load len deep fields show ?thesis by blast
qed

theorem saveCache_loadCache_witness:
  "list_all (\<lambda>c. id_field c \<noteq> [] \<and> pageName c \<noteq> [] \<and> href c \<noteq> [] \<and> fullContent c \<noteq> []
                  \<and> list_all isFinite (embedding_js c))
     [saved_a, saved_b]
   \<and> loadCache (readCache (saveCache cache_path new_year [saved_a, saved_b] no_files) cache_path)
       = Some [JObj [(js ''id'', JStr (js ''a'')), (js ''pageName'', JStr (js ''P'')),
                     (js ''href'', JStr (js ''h'')), (js ''fullContent'', JStr (js ''x'')),
                     (js ''embedding'', JArr [JNum 3, JNum 4])],
               JObj [(js ''id'', JStr (js ''b'')), (js ''pageName'', JStr (js ''Q'')),
                     (js ''href'', JStr (js ''k'')), (js ''fullContent'', JStr (js ''y'')),
                     (js ''embedding'', JArr [JNum 1, JNum 0])]]
   \<and> (\<exists>loaded. loadCache (readCache (saveCache cache_path new_year [saved_a, saved_b] no_files) cache_path)
                  = Some loaded
          \<and> map in_memory loaded = [chunk_object saved_a, chunk_object saved_b]
          \<and> property (loaded ! 1) (js ''pageName'') = Some (JStr (js ''Q''))
          \<and> property (loaded ! 1) (js ''embedding'') = Some (JArr [JNum 1, JNum 0]))"
proof -
  have hyp: "\<forall>c \<in> set [saved_a, saved_b].
      id_field c \<noteq> [] \<and> pageName c \<noteq> [] \<and> href c \<noteq> [] \<and> fullContent c \<noteq> []
      \<and> (\<forall>x \<in> set (embedding_js c). isFinite x)"
    by (simp add: saved_a_def saved_b_def)
  have run: "loadCache (readCache (saveCache cache_path new_year [saved_a, saved_b] no_files) cache_path)
       = Some [JObj [(js ''id'', JStr (js ''a'')), (js ''pageName'', JStr (js ''P'')),
                     (js ''href'', JStr (js ''h'')), (js ''fullContent'', JStr (js ''x'')),
                     (js ''embedding'', JArr [JNum 3, JNum 4])],
               JObj [(js ''id'', JStr (js ''b'')), (js ''pageName'', JStr (js ''Q'')),
                     (js ''href'', JStr (js ''k'')), (js ''fullContent'', JStr (js ''y'')),
                     (js ''embedding'', JArr [JNum 1, JNum 0])]]"
    by (simp add: loadCache_def loadCache_try_def readCache_saved check_chunk_def chunk_object_def
          saved_a_def saved_b_def)
  from saveCache_loadCache [OF hyp, of cache_path new_year no_files] obtain loaded where
    loaded: "loadCache (readCache (saveCache cache_path new_year [saved_a, saved_b] no_files) cache_path) = Some loaded"
      "map in_memory loaded = map chunk_object [saved_a, saved_b]"
      "\<forall>i < length [saved_a, saved_b].
           property (loaded ! i) (js ''pageName'') = Some (JStr (pageName ([saved_a, saved_b] ! i)))
         \<and> (\<exists>xs. property (loaded ! i) (js ''embedding'') = Some (JArr (map JNum xs))
                \<and> map Finite xs = embedding_js ([saved_a, saved_b] ! i))"
    by blast
  from loaded(3) have p1: "property (loaded ! 1) (js ''pageName'') = Some (JStr (js ''Q''))"
    by (simp add: saved_b_def)
  from loaded(3) obtain xs where
    xs: "property (loaded ! 1) (js ''embedding'') = Some (JArr (map JNum xs))"
      "map Finite xs = embedding_js saved_b"
    by force
  from xs(2) have "xs = [1, 0]" by (auto simp: saved_b_def)
  with xs(1) have e1: "property (loaded ! 1) (js ''embedding'') = Some (JArr [JNum 1, JNum 0])"
    by simp
  from loaded(1,2) p1 e1
  have ex: "\<exists>loaded. loadCache (readCache (saveCache cache_path new_year [saved_a, saved_b] no_files) cache_path) = Some loaded
          \<and> map in_memory loaded = [chunk_object saved_a, chunk_object saved_b]
          \<and> property (loaded ! 1) (js ''pageName'') = Some (JStr (js ''Q''))
          \<and> property (loaded ! 1) (js ''embedding'') = Some (JArr [JNum 1, JNum 0])"
    by auto
  have hl: "list_all (\<lambda>c. id_field c \<noteq> [] \<and> pageName c \<noteq> [] \<and> href c \<noteq> [] \<and> fullContent c \<noteq> []
                  \<and> list_all isFinite (embedding_js c)) [saved_a, saved_b]"
    by (simp add: saved_a_def saved_b_def)
  from hl run ex show ?thesis by (intro conjI)
qed

text \<open>
  C6 as stated fails on a chunk whose \<open>id\<close> is the empty string: the validation of
  \<open>loadCache\<close> reads it as a missing field and the load returns \<^verbatim>\<open>null\<close>.  It fails
  also on a chunk with a \<^verbatim>\<open>NaN\<close> in its embedding: the load returns a chunk whose
  embedding has \<^verbatim>\<open>null\<close> in its place, which is not the object saved.
\<close>

theorem saveCache_loadCache_counterexample:
  "loadCache (readCache (saveCache cache_path new_year [anonymous_chunk] no_files) cache_path) = None
   \<and> loadCache (readCache (saveCache cache_path new_year [nan_chunk] no_files) cache_path)
       = Some [JObj [(js ''id'', JStr (js ''n'')), (js ''pageName'', JStr (js ''P'')),
                     (js ''href'', JStr (js ''h'')), (js ''fullContent'', JStr (js ''x'')),
                     (js ''embedding'', JArr [JNum 1, JNull])]]
   \<and> map in_memory [JObj [(js ''id'', JStr (js ''n'')), (js ''pageName'', JStr (js ''P'')),
                           (js ''href'', JStr (js ''h'')), (js ''fullContent'', JStr (js ''x'')),
                           (js ''embedding'', JArr [JNum 1, JNull])]]
       \<noteq> map chunk_object [nan_chunk]"
  by (simp add: loadCache_def loadCache_try_def readCache_saved check_chunk_def chunk_object_def
        anonymous_chunk_def nan_chunk_def)

text \<open>
  C3.  \<open>SearchEngine_loadCache\<close> throws when the file is absent or is not JSON, but it
  checks nothing of the structure: a file whose only chunk has no \<^verbatim>\<open>pageName\<close>, which
  \<open>loadCache\<close> of cache.ts rejects, is loaded and the engine is marked as loaded; so is
  a file with no \<^verbatim>\<open>chunks\<close> at all.
\<close>

theorem SearchEngine_loadCache_unvalidated:
  "SearchEngine_loadCache NoFile this = Inl CacheNotFound
   \<and> SearchEngine_loadCache NotJson this = Inl JsonSyntaxError
   \<and> loadCache nameless_cache = None
   \<and> SearchEngine_loadCache nameless_cache this
       = Inr \<lparr>chunks = Some (JArr [JObj [(js ''id'', JStr (js ''a'')),
                                          (js ''href'', JStr (js ''h'')),
                                          (js ''fullContent'', JStr (js ''x'')),
                                          (js ''embedding'', JArr [JNum 1, JNum 0])]]),
              isLoaded = True\<rparr>
   \<and> SearchEngine_loadCache (Json (JObj [])) this = Inr \<lparr>chunks = None, isLoaded = True\<rparr>"
  by (simp add: SearchEngine_loadCache_def nameless_cache_def loadCache_def loadCache_try_def
        check_chunk_def)

end
